theory Spec2Isabelle
  imports Main "HOL-Library.Sublist" "HOL-Library.AList"
begin

section \<open>Python string operations used by the path engine\<close>

text \<open>
  Paths, aliases and patterns are Python \<open>str\<close> values; they are modelled as
  \<open>string\<close> (lists of 8-bit characters, read as code points below 256).
\<close>

text \<open>\<open>s.split(d)\<close> for a one-character separator: never returns the empty list.\<close>

fun split_on :: "char \<Rightarrow> string \<Rightarrow> string list" where
  "split_on d [] = [[]]"
| "split_on d (c # cs) =
     (if c = d then [] # split_on d cs
      else (case split_on d cs of w # ws \<Rightarrow> (c # w) # ws | [] \<Rightarrow> [[c]]))"

text \<open>\<open>d.join(ws)\<close> for a one-character separator.\<close>

fun join_on :: "char \<Rightarrow> string list \<Rightarrow> string" where
  "join_on d [] = []"
| "join_on d [w] = w"
| "join_on d (w # v # ws) = w @ d # join_on d (v # ws)"

definition split_dot :: "string \<Rightarrow> string list" where
  "split_dot s = split_on (CHR ''.'') s"

definition join_dot :: "string list \<Rightarrow> string" where
  "join_dot ws = join_on (CHR ''.'') ws"

text \<open>\<open>w in s\<close> on strings: \<open>w\<close> occurs in \<open>s\<close> as a contiguous substring.\<close>

fun contains :: "string \<Rightarrow> string \<Rightarrow> bool" where
  "contains w [] = (w = [])"
| "contains w (c # cs) = (prefix w (c # cs) \<or> contains w cs)"

text \<open>\<open>"[*]" in s\<close>, the wildcard test of both resolvers and of the spec compiler.\<close>

definition has_wildcard :: "string \<Rightarrow> bool" where
  "has_wildcard s = contains ''[*]'' s"

text \<open>\<open>seg.split("[")[0]\<close>: the key base of a segment.\<close>

definition key_base :: "string \<Rightarrow> string" where
  "key_base seg = (case split_on (CHR ''['') seg of w # _ \<Rightarrow> w | [] \<Rightarrow> [])"

text \<open>
  \<open>\d\<close> of Python's \<open>re\<close> on \<open>str\<close> matches the Unicode decimal digits; below
  code point 256 these are exactly \<open>0\<close> to \<open>9\<close>.
\<close>

definition is_digit :: "char \<Rightarrow> bool" where
  "is_digit c = (c \<in> set ''0123456789'')"

text \<open>
  The compiled pattern \<open>\[(\d+)\]\<close> anchored at the start of \<open>s\<close>: the bracket, the
  longest non-empty run of digits (a shorter run is never followed by the closing
  bracket), the closing bracket. Returns group 1 and the text after the match.
\<close>

definition index_at :: "string \<Rightarrow> (string \<times> string) option" where
  "index_at s =
     (case s of
        [] \<Rightarrow> None
      | c # t \<Rightarrow>
          if c = CHR ''['' then
            (case dropWhile is_digit t of
               [] \<Rightarrow> None
             | x # r \<Rightarrow>
                 if x = CHR '']'' \<and> takeWhile is_digit t \<noteq> []
                 then Some (takeWhile is_digit t, r) else None)
          else None)"

text \<open>\<open>_index_pattern.search(seg)\<close>: the leftmost match; the result is \<open>match.group(1)\<close>.\<close>

fun index_search :: "string \<Rightarrow> string option" where
  "index_search [] = None"
| "index_search (c # cs) =
     (case index_at (c # cs) of Some (ds, r) \<Rightarrow> Some ds | None \<Rightarrow> index_search cs)"

section \<open>Alias resolution\<close>

subsection \<open>\<open>done.py\<close>: \<open>resolve_alias_with_wildcards\<close>\<close>

text \<open>
  The inner \<open>while current_idx < len(current_segments)\<close> loop with its \<open>else\<close>
  branch. The result is the index string of the \<open>break\<close> (or \<open>None\<close> when the
  loop ran to its end) together with the value of \<open>current_idx\<close> on exit.
\<close>

function scan_while :: "string \<Rightarrow> string list \<Rightarrow> nat \<Rightarrow> string option \<times> nat" where
  "scan_while key_name current_segments current_idx =
     (if current_idx < length current_segments then
        (let current_seg = current_segments ! current_idx in
           if prefix (key_name @ ''['') current_seg then
             (case index_search current_seg of
                Some idx \<Rightarrow> (Some idx, current_idx + 1)
              | None \<Rightarrow> scan_while key_name current_segments (current_idx + 1))
           else scan_while key_name current_segments (current_idx + 1))
      else (None, current_idx))"
  by pat_completeness auto
termination
  by (relation "measure (\<lambda>(k, segs, i). length segs - i)") auto

declare scan_while.simps [simp del]

text \<open>One iteration of \<open>for alias_seg in alias_segments\<close>; the state is
  \<open>(current_idx, resolved_segments)\<close>.\<close>

definition resolve_step :: "string list \<Rightarrow> nat \<times> string list \<Rightarrow> string \<Rightarrow> nat \<times> string list" where
  "resolve_step current_segments st alias_seg =
     (case st of (current_idx, resolved_segments) \<Rightarrow>
        if has_wildcard alias_seg then
          (let key_name = key_base alias_seg in
             case scan_while key_name current_segments current_idx of
               (Some idx, i) \<Rightarrow> (i, resolved_segments @ [key_name @ ''['' @ idx @ '']''])
             | (None, i) \<Rightarrow> (i, resolved_segments @ [alias_seg]))
        else
          (if current_idx < length current_segments
                \<and> current_segments ! current_idx = alias_seg
           then current_idx + 1 else current_idx,
           resolved_segments @ [alias_seg]))"

definition resolve_alias_with_wildcards :: "string \<Rightarrow> string \<Rightarrow> string" where
  "resolve_alias_with_wildcards alias_path current_path =
     join_dot (snd (foldl (resolve_step (split_dot current_path)) (0, [])
                      (split_dot alias_path)))"

subsection \<open>\<open>final_rendition.py\<close>: \<open>JSONParser._parsing_replace_wildcard_with_index\<close>\<close>

text \<open>
  The inner \<open>for index in range(current_index, len(current_segments))\<close> loop. On a
  \<open>break\<close> it yields the index string and the new \<open>current_index\<close>; when the range is
  exhausted \<open>found\<close> stays false and \<open>current_index\<close> is not assigned.
\<close>

function scan_for :: "string \<Rightarrow> string list \<Rightarrow> nat \<Rightarrow> (string \<times> nat) option" where
  "scan_for key_name current_segments index =
     (if index < length current_segments then
        (let seg = current_segments ! index in
           if prefix (key_name @ ''['') seg then
             (case index_search seg of
                Some idx \<Rightarrow> Some (idx, index + 1)
              | None \<Rightarrow> scan_for key_name current_segments (index + 1))
           else scan_for key_name current_segments (index + 1))
      else None)"
  by pat_completeness auto
termination
  by (relation "measure (\<lambda>(k, segs, i). length segs - i)") auto

declare scan_for.simps [simp del]

definition replace_step :: "string list \<Rightarrow> nat \<times> string list \<Rightarrow> string \<Rightarrow> nat \<times> string list" where
  "replace_step current_segments st alias_segment =
     (case st of (current_index, resolved_segments) \<Rightarrow>
        if has_wildcard alias_segment then
          (let key_name = key_base alias_segment in
             case scan_for key_name current_segments current_index of
               Some (idx, i) \<Rightarrow> (i, resolved_segments @ [key_name @ ''['' @ idx @ '']''])
             | None \<Rightarrow> (current_index, resolved_segments @ [alias_segment]))
        else
          (if current_index < length current_segments
                \<and> current_segments ! current_index = alias_segment
           then current_index + 1 else current_index,
           resolved_segments @ [alias_segment]))"

definition parsing_replace_wildcard_with_index :: "string \<Rightarrow> string \<Rightarrow> string" where
  "parsing_replace_wildcard_with_index alias_path current_path =
     join_dot (snd (foldl (replace_step (split_dot current_path)) (0, [])
                      (split_dot alias_path)))"

section \<open>Pattern matching\<close>

text \<open>
  \<open>path_matches\<close> (\<open>done.py\<close>, \<open>spec_based.py\<close>) and
  \<open>JSONParser._parsing_path_matches\<close> (\<open>final_rendition.py\<close>) all evaluate
  \<open>re.fullmatch(re.escape(pattern).replace(r"\[\*\]", r"\[\d+\]"), path)\<close>; two of them
  memoise the compiled expression, which does not change the result.
\<close>

definition backslash :: char where
  "backslash = CHR 0x5C"

text \<open>\<open>re.escape\<close> (Python 3.7 and later): a backslash before each of
  \<open>()[]{}?*+-|^$\.&~#\<close>, space, tab, newline, carriage return, vertical tab and form feed.\<close>

definition special_chars :: "char list" where
  "special_chars =
     ''()[]{}?*+-|^$.&~# '' @ [backslash, CHR 0x09, CHR 0x0A, CHR 0x0D, CHR 0x0B, CHR 0x0C]"

fun re_escape :: "string \<Rightarrow> string" where
  "re_escape [] = []"
| "re_escape (c # cs) =
     (if c \<in> set special_chars then backslash # c # re_escape cs else c # re_escape cs)"

text \<open>\<open>s.replace(old, new)\<close> for a non-empty \<open>old\<close>: the occurrences are replaced from
  the left, without overlap.\<close>

function str_replace :: "string \<Rightarrow> string \<Rightarrow> string \<Rightarrow> string" where
  "str_replace old new [] = []"
| "str_replace old new (c # cs) =
     (if old \<noteq> [] \<and> prefix old (c # cs)
      then new @ str_replace old new (drop (length old) (c # cs))
      else c # str_replace old new cs)"
  by pat_completeness auto
termination
  by (relation "measure (\<lambda>(old, new, s). length s)") auto

definition escaped_wildcard :: string where
  "escaped_wildcard = [backslash, CHR ''['', backslash, CHR ''*'', backslash, CHR '']'']"

definition digits_wildcard :: string where
  "digits_wildcard =
     [backslash, CHR ''['', backslash, CHR ''d'', CHR ''+'', backslash, CHR '']'']"

text \<open>
  The expressions that \<open>re.escape\<close> followed by this replacement can produce consist of
  unescaped ordinary characters, escaped characters and \<open>\d+\<close>. \<open>re_compile\<close> reads that
  fragment of the \<open>re\<close> syntax; \<open>re_fullmatch\<close> is \<open>fullmatch\<close> on it (a match exists
  for some length of each digit run).
\<close>

datatype re_item = Lit char | Digit | DigitPlus

fun re_compile :: "string \<Rightarrow> re_item list" where
  "re_compile [] = []"
| "re_compile (c # cs) =
     (if c = backslash then
        (case cs of
           [] \<Rightarrow> [Lit c]
         | e # r \<Rightarrow>
             if e = CHR ''d'' then
               (case r of
                  [] \<Rightarrow> [Digit]
                | p # r' \<Rightarrow> if p = CHR ''+'' then DigitPlus # re_compile r'
                            else Digit # re_compile (p # r'))
             else Lit e # re_compile r)
      else Lit c # re_compile cs)"

fun re_fullmatch :: "re_item list \<Rightarrow> string \<Rightarrow> bool" where
  "re_fullmatch [] s = (s = [])"
| "re_fullmatch (Lit c # r) s =
     (case s of [] \<Rightarrow> False | x # xs \<Rightarrow> x = c \<and> re_fullmatch r xs)"
| "re_fullmatch (Digit # r) s =
     (case s of [] \<Rightarrow> False | x # xs \<Rightarrow> is_digit x \<and> re_fullmatch r xs)"
| "re_fullmatch (DigitPlus # r) s =
     (case s of
        [] \<Rightarrow> False
      | x # xs \<Rightarrow> is_digit x \<and> (re_fullmatch r xs \<or> re_fullmatch (DigitPlus # r) xs))"

definition path_matches :: "string \<Rightarrow> string \<Rightarrow> bool" where
  "path_matches path pattern =
     re_fullmatch
       (re_compile (str_replace escaped_wildcard digits_wildcard (re_escape pattern))) path"

section \<open>Documents and the indexing walk\<close>

text \<open>
  A JSON-compatible Python value. A \<open>dict\<close> is kept as its items in insertion order (the
  order of \<open>obj.items()\<close>). Numbers are never inspected by the engine.
\<close>

datatype json =
    JNull
  | JBool bool
  | JNum int
  | JStr string
  | JList "json list"
  | JDict "(string \<times> json) list"

type_synonym path_index = "string \<Rightarrow> json option"

text \<open>\<open>isinstance(value, (dict, list))\<close>\<close>

fun is_container :: "json \<Rightarrow> bool" where
  "is_container (JDict kvs) = True"
| "is_container (JList xs) = True"
| "is_container v = False"

text \<open>The decimal text of a list position, as the f-string \<open>f"{path}[{index}]"\<close> prints it.\<close>

definition digit_char :: "nat \<Rightarrow> char" where
  "digit_char n = ''0123456789'' ! n"

fun show_nat :: "nat \<Rightarrow> string" where
  "show_nat n =
     (if n < 10 then [digit_char n] else show_nat (n div 10) @ [digit_char (n mod 10)])"

declare show_nat.simps [simp del]

text \<open>\<open>d.get(key)\<close> on the path index and on a mapping node: Python's \<open>None\<close> when the key
  is missing.\<close>

definition index_get :: "path_index \<Rightarrow> string \<Rightarrow> json" where
  "index_get path_index key = (case path_index key of Some v \<Rightarrow> v | None \<Rightarrow> JNull)"

fun obj_get :: "json \<Rightarrow> string \<Rightarrow> json" where
  "obj_get (JDict kvs) key = (case map_of kvs key of Some v \<Rightarrow> v | None \<Rightarrow> JNull)"
| "obj_get v key = JNull"

text \<open>
  The walk of \<open>extract_model_data.walk\<close> (\<open>done.py\<close>) and of
  \<open>JSONParser._parsing_walk\<close> (\<open>final_rendition.py\<close>), which differ only in the
  extraction they run at a mapping node. The state is the path index and whatever the
  extraction \<open>ext\<close> accumulates; \<open>ext\<close> receives the node, its path and the index as it
  stands. \<open>walk_items\<close> is the loop over \<open>obj.items()\<close>, \<open>walk_elems\<close> the loop over
  \<open>enumerate(obj)\<close>.
\<close>

function walk :: "(json \<Rightarrow> string \<Rightarrow> path_index \<Rightarrow> 'u \<Rightarrow> 'u) \<Rightarrow> json \<Rightarrow> string \<Rightarrow> path_index \<times> 'u \<Rightarrow> path_index \<times> 'u"
  and walk_items :: "(json \<Rightarrow> string \<Rightarrow> path_index \<Rightarrow> 'u \<Rightarrow> 'u) \<Rightarrow> (string \<times> json) list \<Rightarrow> string \<Rightarrow> path_index \<times> 'u \<Rightarrow> path_index \<times> 'u"
  and walk_elems :: "(json \<Rightarrow> string \<Rightarrow> path_index \<Rightarrow> 'u \<Rightarrow> 'u) \<Rightarrow> json list \<Rightarrow> nat \<Rightarrow> string \<Rightarrow> path_index \<times> 'u \<Rightarrow> path_index \<times> 'u"
where
  "walk ext (JDict kvs) path (idx, u) =
     (case walk_items ext kvs path (idx(path \<mapsto> JDict kvs), u) of
        (idx', u') \<Rightarrow> (idx', ext (JDict kvs) path idx' u'))"
| "walk ext (JList xs) path (idx, u) = walk_elems ext xs 0 path (idx(path \<mapsto> JList xs), u)"
| "walk ext JNull path (idx, u) = (idx(path \<mapsto> JNull), u)"
| "walk ext (JBool b) path (idx, u) = (idx(path \<mapsto> JBool b), u)"
| "walk ext (JNum n) path (idx, u) = (idx(path \<mapsto> JNum n), u)"
| "walk ext (JStr s) path (idx, u) = (idx(path \<mapsto> JStr s), u)"
| "walk_items ext [] path st = st"
| "walk_items ext ((key, v) # kvs) path (idx, u) =
     (let field_path = path @ ''.'' @ key;
          st1 = (idx(field_path \<mapsto> v), u);
          st2 = (if is_container v then walk ext v field_path st1 else st1)
      in walk_items ext kvs path st2)"
| "walk_elems ext [] i path st = st"
| "walk_elems ext (item # items) i path (idx, u) =
     (let item_path = path @ ''['' @ show_nat i @ '']'';
          st1 = (idx(item_path \<mapsto> item), u);
          st2 = (if is_container item then walk ext item item_path st1 else st1)
      in walk_elems ext items (i + 1) path st2)"
  by pat_completeness auto
termination
  by (relation "measure (\<lambda>x. case x of
        Inl (ext, obj, path, st) \<Rightarrow> 2 * size obj
      | Inr (Inl (ext, kvs, path, st)) \<Rightarrow> 2 * size_list (size_prod (\<lambda>k. 0) size) kvs + 1
      | Inr (Inr (ext, xs, i, path, st)) \<Rightarrow> 2 * size_list size xs + 1)") auto

section \<open>Schemas and the validator boundary\<close>

text \<open>
  What the engine reads of a pydantic \<open>FieldInfo\<close>: its alias, and (in
  \<open>spec_based.py\<close> only) whether \<open>json_schema_extra.get("primary_key")\<close> is truthy and
  whether some entry of \<open>constraints\<close> mentions \<open>primary_key\<close>.
\<close>

record field_info =
  field_alias :: "string option"
  extra_primary_key :: bool
  constraint_primary_key :: bool

text \<open>
  A model class: \<open>__name__\<close>, \<open>model_fields\<close> in declaration order, and validation.
  \<open>model_validate(data).model_dump()\<close> (or \<open>TypeAdapter(cls).validate_python(data)\<close>) is
  an external capability: it yields the dumped row (\<open>Inr\<close>) or raises
  \<open>ValidationError\<close>, of which the engine keeps \<open>e.errors()\<close> (\<open>Inl\<close>).
\<close>

record ('e, 'r) model_cls =
  cls_name :: string
  model_fields :: "(string \<times> field_info) list"
  model_validate :: "(string \<times> json) list \<Rightarrow> 'e + 'r"

text \<open>One entry of the error list: \<open>{"path": ..., "model": ..., "errors": ...}\<close>.\<close>

record 'e extraction_error =
  err_path :: string
  err_model :: string
  err_errors :: 'e

text \<open>\<open>results[key].append(row)\<close>; every key the engine appends under was
  initialised with an empty list before the walk.\<close>

definition append_result :: "(string \<Rightarrow> 'r list option) \<Rightarrow> string \<Rightarrow> 'r \<Rightarrow> (string \<Rightarrow> 'r list option)" where
  "append_result results key row =
     results(key \<mapsto> (case results key of Some rows \<Rightarrow> rows | None \<Rightarrow> []) @ [row])"

section \<open>\<open>done.py\<close>: extraction with an explicit spec list\<close>

record ('e, 'r) model_spec =
  spec_model_cls :: "('e, 'r) model_cls"
  path_pattern :: string
  parent_pattern :: "string option"

definition build_model_data :: "json \<Rightarrow> string \<Rightarrow> ('e, 'r) model_spec \<Rightarrow> path_index \<Rightarrow> (string \<times> json) list" where
  "build_model_data obj path spec path_index =
     map (\<lambda>(field_name, info).
            (field_name,
             case field_alias info of
               None \<Rightarrow> obj_get obj field_name
             | Some a \<Rightarrow>
                 if a = field_name then obj_get obj field_name
                 else index_get path_index (resolve_alias_with_wildcards a path)))
         (model_fields (spec_model_cls spec))"

text \<open>The body of \<open>for spec in specs\<close> in \<open>_extract_models_at_path\<close>.\<close>

definition extract_spec_at_path :: "json \<Rightarrow> string \<Rightarrow> path_index \<Rightarrow> (string \<Rightarrow> 'r list option) \<times> 'e extraction_error list \<Rightarrow> ('e, 'r) model_spec \<Rightarrow> (string \<Rightarrow> 'r list option) \<times> 'e extraction_error list" where
  "extract_spec_at_path obj path path_index st spec =
     (case st of (results, errors) \<Rightarrow>
        if path_matches path (path_pattern spec) then
          (case model_validate (spec_model_cls spec) (build_model_data obj path spec path_index) of
             Inr row \<Rightarrow> (append_result results (path_pattern spec) row, errors)
           | Inl e \<Rightarrow>
               (results,
                errors @ [\<lparr>err_path = path, err_model = path_pattern spec, err_errors = e\<rparr>]))
        else (results, errors))"

definition extract_models_at_path :: "('e, 'r) model_spec list \<Rightarrow> json \<Rightarrow> string \<Rightarrow> path_index \<Rightarrow> (string \<Rightarrow> 'r list option) \<times> 'e extraction_error list \<Rightarrow> (string \<Rightarrow> 'r list option) \<times> 'e extraction_error list" where
  "extract_models_at_path specs obj path path_index st =
     foldl (extract_spec_at_path obj path path_index) st specs"

text \<open>\<open>{spec.path_pattern: [] for spec in specs}\<close>\<close>

definition empty_results :: "string list \<Rightarrow> (string \<Rightarrow> 'r list option)" where
  "empty_results keys = map_of (map (\<lambda>k. (k, [])) keys)"

definition extract_model_data :: "json \<Rightarrow> ('e, 'r) model_spec list \<Rightarrow> (string \<Rightarrow> 'r list option) \<times> 'e extraction_error list" where
  "extract_model_data json_obj specs =
     snd (walk (extract_models_at_path specs) json_obj ''root''
            (Map.empty, (empty_results (map path_pattern specs), [])))"

section \<open>\<open>final_rendition.py\<close>: \<open>JSONParser\<close>\<close>

text \<open>
  Every exception of the parser is a \<open>ValueError\<close>. The constructor raises it for a
  field without an alias and when \<open>min()\<close> or \<open>max()\<close> receives an empty sequence;
  \<open>parse\<close> raises it with the error list.
\<close>

datatype init_error =
    ValueError_alias_required string
  | ValueError_empty_sequence

datatype 'e parse_error = ValueError_errors "'e extraction_error list"

record ('e, 'r) parser_spec =
  data_model :: "('e, 'r) model_cls"
  json_path_pattern :: string

text \<open>
  The attributes of a \<open>JSONParser\<close>. \<open>model_specs\<close>, \<open>model_adapters\<close> and
  \<open>model_fields_cache\<close> are dictionaries keyed by model name, kept as association lists in
  insertion order. \<open>regex_pattern_cache\<close> (a memo of compiled patterns) and
  \<open>index_pattern\<close> (a constant) are left out.
\<close>

record ('e, 'r) json_parser =
  model_specs :: "(string \<times> ('e, 'r) parser_spec) list"
  model_adapters :: "(string \<times> ((string \<times> json) list \<Rightarrow> 'e + 'r)) list"
  results :: "string \<Rightarrow> 'r list option"
  errors :: "'e extraction_error list"
  indexed_cache :: path_index
  model_fields_cache :: "(string \<times> (string \<times> string \<times> bool) list) list"

text \<open>\<open>".".join(alias.split(".")[:-1])\<close>: the alias without its last segment.\<close>

definition alias_parent :: "string \<Rightarrow> string" where
  "alias_parent a = join_dot (butlast (split_dot a))"

text \<open>\<open>p.count(".")\<close>\<close>

definition count_dots :: "string \<Rightarrow> nat" where
  "count_dots p = length (filter (\<lambda>c. c = CHR ''.'') p)"

text \<open>\<open>max(best, *rest, key=key)\<close>: the first of the maximal elements.\<close>

fun max_by :: "('a \<Rightarrow> nat) \<Rightarrow> 'a \<Rightarrow> 'a list \<Rightarrow> 'a" where
  "max_by key best [] = best"
| "max_by key best (x # xs) = max_by key (if key best < key x then x else best) xs"

definition model_specs_find_deepest_wildcard_path :: "string list \<Rightarrow> init_error + string" where
  "model_specs_find_deepest_wildcard_path aliases =
     (case map alias_parent aliases of
        [] \<Rightarrow> Inl ValueError_empty_sequence
      | p # ps \<Rightarrow> Inr (max_by count_dots p ps))"

text \<open>The comparison of the \<open>all(...)\<close> in the common-prefix loop.\<close>

definition same_base :: "string \<Rightarrow> string \<Rightarrow> bool" where
  "same_base first_base seg =
     (if contains ''['' seg then key_base seg = first_base else seg = first_base)"

text \<open>
  \<open>for index in range(min_length)\<close> with its \<open>break\<close>. Every list of \<open>path_segments\<close>
  has at least \<open>min_length\<close> elements, so \<open>segments[index]\<close> is in range.
\<close>

function common_loop :: "string list list \<Rightarrow> nat \<Rightarrow> nat \<Rightarrow> string list \<Rightarrow> string list" where
  "common_loop path_segments min_length index common_segments =
     (if index < min_length then
        (let segments_at_position = map (\<lambda>segments. segments ! index) path_segments;
             first_segment = segments_at_position ! 0;
             first_base = (if contains ''['' first_segment then key_base first_segment
                           else first_segment)
         in if list_all (same_base first_base) segments_at_position
            then common_loop path_segments min_length (index + 1)
                   (common_segments @ [first_segment])
            else common_segments)
      else common_segments)"
  by pat_completeness auto
termination
  by (relation "measure (\<lambda>(ps, m, i, acc). m - i)") auto

declare common_loop.simps [simp del]

definition model_specs_find_deepest_common_path_pattern :: "string list \<Rightarrow> init_error + string" where
  "model_specs_find_deepest_common_path_pattern aliases =
     (let paths = map alias_parent aliases;
          path_segments = map split_dot paths
      in if path_segments = [] then Inl ValueError_empty_sequence
         else
           (let min_length = Min (set (map length path_segments));
                common_segments = common_loop path_segments min_length 0 []
            in Inr (if common_segments \<noteq> [] then join_dot common_segments else ''root'')))"

text \<open>The loop over \<open>model_cls.model_fields.items()\<close>: it raises at the first field
  without an alias.\<close>

fun collect_fields :: "(string \<times> field_info) list \<Rightarrow> init_error + (string \<times> string \<times> bool) list" where
  "collect_fields [] = Inr []"
| "collect_fields ((field_name, info) # rest) =
     (case field_alias info of
        None \<Rightarrow> Inl (ValueError_alias_required field_name)
      | Some a \<Rightarrow>
          (case collect_fields rest of
             Inl e \<Rightarrow> Inl e
           | Inr field_list \<Rightarrow> Inr ((field_name, a, has_wildcard a) # field_list)))"

text \<open>The attachment pattern of one model, from its collected fields.\<close>

definition infer_json_path_pattern :: "(string \<times> string \<times> bool) list \<Rightarrow> init_error + string" where
  "infer_json_path_pattern field_list =
     (let all_aliases = map (\<lambda>(n, a, w). a) field_list;
          wildcard_aliases = map (\<lambda>(n, a, w). a) (filter (\<lambda>(n, a, w). w) field_list)
      in if wildcard_aliases \<noteq> []
         then model_specs_find_deepest_wildcard_path wildcard_aliases
         else model_specs_find_deepest_common_path_pattern all_aliases)"

text \<open>\<open>_model_specs_create_specs_and_adapters\<close>: the loop over \<open>data_models\<close>.\<close>

fun model_specs_create_specs_and_adapters :: "('e, 'r) json_parser \<Rightarrow> ('e, 'r) model_cls list \<Rightarrow> init_error + ('e, 'r) json_parser" where
  "model_specs_create_specs_and_adapters self [] = Inr self"
| "model_specs_create_specs_and_adapters self (cls # data_models) =
     (case collect_fields (model_fields cls) of
        Inl e \<Rightarrow> Inl e
      | Inr field_list \<Rightarrow>
          (case infer_json_path_pattern field_list of
             Inl e \<Rightarrow> Inl e
           | Inr pat \<Rightarrow>
               model_specs_create_specs_and_adapters
                 (self\<lparr>model_fields_cache :=
                          AList.update (cls_name cls) field_list (model_fields_cache self),
                        model_specs :=
                          AList.update (cls_name cls)
                            \<lparr>data_model = cls, json_path_pattern = pat\<rparr> (model_specs self),
                        model_adapters :=
                          AList.update (cls_name cls) (model_validate cls) (model_adapters self)\<rparr>)
                 data_models))"

text \<open>\<open>JSONParser.__init__\<close>: an exception leaves no parser behind.\<close>

definition JSONParser_init :: "('e, 'r) model_cls list \<Rightarrow> init_error + ('e, 'r) json_parser" where
  "JSONParser_init data_models =
     model_specs_create_specs_and_adapters
       \<lparr>model_specs = [], model_adapters = [], results = Map.empty, errors = [],
        indexed_cache = Map.empty, model_fields_cache = []\<rparr>
       data_models"

definition clear_index_cache :: "('e, 'r) json_parser \<Rightarrow> ('e, 'r) json_parser" where
  "clear_index_cache self = self\<lparr>indexed_cache := Map.empty\<rparr>"

definition clear_batch_results :: "('e, 'r) json_parser \<Rightarrow> ('e, 'r) json_parser" where
  "clear_batch_results self = self\<lparr>results := Map.empty\<rparr>"

text \<open>\<open>_parsing_build_model_data\<close>, for the cached field list of the model.\<close>

definition parsing_build_model_data :: "path_index \<Rightarrow> (string \<times> string \<times> bool) list \<Rightarrow> string \<Rightarrow> (string \<times> json) list" where
  "parsing_build_model_data cache field_list path =
     map (\<lambda>(field_name, a, wild).
            (field_name,
             index_get cache
               (if wild then parsing_replace_wildcard_with_index a path else a)))
         field_list"

text \<open>
  The body of \<open>for model_name, spec in self.model_specs.items()\<close> in
  \<open>_parsing_extract_models_at_path\<close>. Both dictionary reads hit: every name of
  \<open>model_specs\<close> was stored in the two other dictionaries by the constructor.
\<close>

definition parsing_extract_model :: "('e, 'r) json_parser \<Rightarrow> string \<Rightarrow> path_index \<Rightarrow> (string \<Rightarrow> 'r list option) \<times> 'e extraction_error list \<Rightarrow> string \<times> ('e, 'r) parser_spec \<Rightarrow> (string \<Rightarrow> 'r list option) \<times> 'e extraction_error list" where
  "parsing_extract_model self path cache st entry =
     (case st of (res, errs) \<Rightarrow>
      case entry of (model_name, spec) \<Rightarrow>
        if path_matches path (json_path_pattern spec) then
          (let field_list = (case map_of (model_fields_cache self) model_name of
                           Some fs \<Rightarrow> fs | None \<Rightarrow> []);
               adapter = (case map_of (model_adapters self) model_name of
                            Some v \<Rightarrow> v | None \<Rightarrow> model_validate (data_model spec))
           in case adapter (parsing_build_model_data cache field_list path) of
                Inr row \<Rightarrow> (append_result res model_name row, errs)
              | Inl e \<Rightarrow>
                  (res, errs @ [\<lparr>err_path = path, err_model = model_name, err_errors = e\<rparr>]))
        else (res, errs))"

definition parsing_extract_models_at_path :: "('e, 'r) json_parser \<Rightarrow> json \<Rightarrow> string \<Rightarrow> path_index \<Rightarrow> (string \<Rightarrow> 'r list option) \<times> 'e extraction_error list \<Rightarrow> (string \<Rightarrow> 'r list option) \<times> 'e extraction_error list" where
  "parsing_extract_models_at_path self obj path cache st =
     foldl (parsing_extract_model self path cache) st (model_specs self)"

text \<open>\<open>_parsing_walk(obj, path)\<close>: the walk on the parser's own index, results and errors.\<close>

definition parsing_walk :: "('e, 'r) json_parser \<Rightarrow> json \<Rightarrow> string \<Rightarrow> ('e, 'r) json_parser" where
  "parsing_walk self obj path =
     (case walk (parsing_extract_models_at_path self) obj path
             (indexed_cache self, (results self, errors self)) of
        (cache, (res, errs)) \<Rightarrow>
          self\<lparr>indexed_cache := cache, results := res, errors := errs\<rparr>)"

text \<open>\<open>parse\<close>: the returned value or the raised exception, and the parser afterwards.\<close>

definition parse :: "('e, 'r) json_parser \<Rightarrow> json \<Rightarrow> ('e parse_error + (string \<Rightarrow> 'r list option)) \<times> ('e, 'r) json_parser" where
  "parse self json_obj =
     (let self1 = clear_index_cache self;
          self2 = self1\<lparr>results := empty_results (map fst (model_specs self1))\<rparr>;
          self3 = parsing_walk self2 json_obj ''root''
      in if errors self3 \<noteq> [] then (Inl (ValueError_errors (errors self3)), self3)
         else (Inr (results self3), self3))"

definition parse_batch :: "('e, 'r) json_parser \<Rightarrow> json list \<Rightarrow> (string \<Rightarrow> 'r list option) \<times> ('e, 'r) json_parser" where
  "parse_batch self json_objs =
     (let self1 = clear_batch_results self;
          self2 = self1\<lparr>results := empty_results (map fst (model_specs self1))\<rparr>;
          self3 = foldl (\<lambda>s json_obj. parsing_walk s json_obj ''root'') self2 json_objs
      in (results self3, self3))"

section \<open>\<open>spec_based.py\<close>: \<open>infer_model_specs\<close>\<close>

text \<open>\<open>min(best, *rest, key=key)\<close>: the first of the minimal elements.\<close>

fun min_by :: "('a \<Rightarrow> nat) \<Rightarrow> 'a \<Rightarrow> 'a list \<Rightarrow> 'a" where
  "min_by key best [] = best"
| "min_by key best (x # xs) = min_by key (if key x < key best then x else best) xs"

text \<open>\<open>_find_common_path_pattern\<close>: the same loop as in \<open>final_rendition.py\<close>, on the
  given paths as they are.\<close>

definition find_common_path_pattern :: "string list \<Rightarrow> string" where
  "find_common_path_pattern aliases =
     (if aliases = [] then ''root''
      else
        (let alias_segments = map split_dot aliases;
             min_length = Min (set (map length alias_segments));
             common_segments = common_loop alias_segments min_length 0 []
         in if common_segments \<noteq> [] then join_dot common_segments else ''root''))"

text \<open>The loop \<open>for depth in sorted(paths_by_depth.keys(), reverse=True)\<close> of
  \<open>_find_deepest_common_path\<close>.\<close>

fun first_common_by_depth :: "string list \<Rightarrow> nat list \<Rightarrow> string" where
  "first_common_by_depth paths [] = ''root''"
| "first_common_by_depth paths (depth # depths) =
     (let common = find_common_path_pattern (filter (\<lambda>p. count_dots p = depth) paths)
      in if common \<noteq> [] \<and> common \<noteq> ''root'' then common
         else first_common_by_depth paths depths)"

definition find_deepest_common_path :: "string list \<Rightarrow> string" where
  "find_deepest_common_path aliases =
     (if aliases = [] then ''root''
      else
        (let paths = map alias_parent aliases
         in first_common_by_depth paths (rev (sort (remdups (map count_dots paths))))))"

definition find_shallowest_path :: "string list \<Rightarrow> string" where
  "find_shallowest_path aliases =
     (case map alias_parent aliases of
        [] \<Rightarrow> ''root''
      | p # ps \<Rightarrow> min_by count_dots p ps)"

definition get_parent_path :: "string \<Rightarrow> string option" where
  "get_parent_path path =
     (let segments = split_dot path
      in if length segments \<le> 1 then None else Some (join_dot (butlast segments)))"

text \<open>
  One iteration of the loop over \<open>model_cls.model_fields.items()\<close>; the state is
  \<open>(pk_alias, all_aliases, fk_aliases)\<close>. A field whose alias is \<open>None\<close>, empty or equal
  to the field name is skipped.
\<close>

definition infer_field_step :: "string option \<times> string list \<times> string list \<Rightarrow> string \<times> field_info \<Rightarrow> string option \<times> string list \<times> string list" where
  "infer_field_step st field =
     (case st of (pk_alias, all_aliases, fk_aliases) \<Rightarrow>
      case field of (field_name, info) \<Rightarrow>
        (case field_alias info of
           None \<Rightarrow> st
         | Some a \<Rightarrow>
             if a \<noteq> [] \<and> a \<noteq> field_name then
               (let is_pk = ((field_name = ''id''
                               \<or> suffix ''_id'' field_name \<and> extra_primary_key info)
                             \<or> constraint_primary_key info)
                in (if is_pk \<or> (pk_alias = None \<and> field_name \<in> {''id'', ''tx_id''})
                    then Some a else pk_alias,
                    all_aliases @ [a],
                    if suffix ''_id'' field_name \<and> \<not> is_pk then fk_aliases @ [a]
                    else fk_aliases))
             else st))"

definition infer_model_spec :: "('e, 'r) model_cls \<Rightarrow> ('e, 'r) model_spec" where
  "infer_model_spec cls =
     (case foldl infer_field_step (None, [], []) (model_fields cls) of
        (pk_alias, all_aliases, fk_aliases) \<Rightarrow>
          (let pattern =
                 (case pk_alias of
                    Some a \<Rightarrow>
                      (let path_segments = split_dot a
                       in if length path_segments > 1 then join_dot (butlast path_segments)
                          else ''root'')
                  | None \<Rightarrow>
                      if all_aliases \<noteq> [] then find_deepest_common_path all_aliases
                      else ''root'');
               parent =
                 (if fk_aliases \<noteq> [] then
                    (let parent = find_shallowest_path fk_aliases
                     in if parent = pattern then get_parent_path pattern else Some parent)
                  else None)
           in \<lparr>spec_model_cls = cls, path_pattern = pattern, parent_pattern = parent\<rparr>))"

text \<open>\<open>infer_model_specs(table_models)\<close>: one spec for each entry of the dictionary, in
  order. Nothing in it raises.\<close>

definition infer_model_specs :: "(string \<times> ('e, 'r) model_cls) list \<Rightarrow> ('e, 'r) model_spec list" where
  "infer_model_specs table_models = map (\<lambda>(model_name, cls). infer_model_spec cls) table_models"

section \<open>The index and the extraction points of a walk\<close>

text \<open>
  \<open>_index_path\<close> of \<open>done.py\<close>: the indexing part of the walk on its own. Lemma
  \<open>walk_index_events\<close> below shows that the walk builds exactly this index.
\<close>

function index_path :: "json \<Rightarrow> string \<Rightarrow> path_index \<Rightarrow> path_index"
  and index_items :: "(string \<times> json) list \<Rightarrow> string \<Rightarrow> path_index \<Rightarrow> path_index"
  and index_elems :: "json list \<Rightarrow> nat \<Rightarrow> string \<Rightarrow> path_index \<Rightarrow> path_index"
where
  "index_path (JDict kvs) path idx = index_items kvs path (idx(path \<mapsto> JDict kvs))"
| "index_path (JList xs) path idx = index_elems xs 0 path (idx(path \<mapsto> JList xs))"
| "index_path JNull path idx = idx(path \<mapsto> JNull)"
| "index_path (JBool b) path idx = idx(path \<mapsto> JBool b)"
| "index_path (JNum n) path idx = idx(path \<mapsto> JNum n)"
| "index_path (JStr s) path idx = idx(path \<mapsto> JStr s)"
| "index_items [] path idx = idx"
| "index_items ((key, v) # kvs) path idx =
     (let field_path = path @ ''.'' @ key;
          idx1 = idx(field_path \<mapsto> v);
          idx2 = (if is_container v then index_path v field_path idx1 else idx1)
      in index_items kvs path idx2)"
| "index_elems [] i path idx = idx"
| "index_elems (item # items) i path idx =
     (let item_path = path @ ''['' @ show_nat i @ '']'';
          idx1 = idx(item_path \<mapsto> item);
          idx2 = (if is_container item then index_path item item_path idx1 else idx1)
      in index_elems items (i + 1) path idx2)"
  by pat_completeness auto
termination
  by (relation "measure (\<lambda>x. case x of
        Inl (obj, path, idx) \<Rightarrow> 2 * size obj
      | Inr (Inl (kvs, path, idx)) \<Rightarrow> 2 * size_list (size_prod (\<lambda>k. 0) size) kvs + 1
      | Inr (Inr (xs, i, path, idx)) \<Rightarrow> 2 * size_list size xs + 1)") auto

text \<open>
  The extraction points of a walk, in order: each call of the extraction, as the node,
  its path and the index at the moment of the call. Lemma \<open>walk_index_events\<close> shows
  that the walk runs its extraction on exactly these, whatever the extraction does.
\<close>

function walk_events :: "json \<Rightarrow> string \<Rightarrow> path_index \<Rightarrow> (json \<times> string \<times> path_index) list"
  and items_events :: "(string \<times> json) list \<Rightarrow> string \<Rightarrow> path_index \<Rightarrow> (json \<times> string \<times> path_index) list"
  and elems_events :: "json list \<Rightarrow> nat \<Rightarrow> string \<Rightarrow> path_index \<Rightarrow> (json \<times> string \<times> path_index) list"
where
  "walk_events (JDict kvs) path idx =
     items_events kvs path (idx(path \<mapsto> JDict kvs))
       @ [(JDict kvs, path, index_items kvs path (idx(path \<mapsto> JDict kvs)))]"
| "walk_events (JList xs) path idx = elems_events xs 0 path (idx(path \<mapsto> JList xs))"
| "walk_events JNull path idx = []"
| "walk_events (JBool b) path idx = []"
| "walk_events (JNum n) path idx = []"
| "walk_events (JStr s) path idx = []"
| "items_events [] path idx = []"
| "items_events ((key, v) # kvs) path idx =
     (let field_path = path @ ''.'' @ key;
          idx1 = idx(field_path \<mapsto> v)
      in if is_container v
         then walk_events v field_path idx1
                @ items_events kvs path (index_path v field_path idx1)
         else items_events kvs path idx1)"
| "elems_events [] i path idx = []"
| "elems_events (item # items) i path idx =
     (let item_path = path @ ''['' @ show_nat i @ '']'';
          idx1 = idx(item_path \<mapsto> item)
      in if is_container item
         then walk_events item item_path idx1
                @ elems_events items (i + 1) path (index_path item item_path idx1)
         else elems_events items (i + 1) path idx1)"
  by pat_completeness auto
termination
  by (relation "measure (\<lambda>x. case x of
        Inl (obj, path, idx) \<Rightarrow> 2 * size obj
      | Inr (Inl (kvs, path, idx)) \<Rightarrow> 2 * size_list (size_prod (\<lambda>k. 0) size) kvs + 1
      | Inr (Inr (xs, i, path, idx)) \<Rightarrow> 2 * size_list size xs + 1)") auto

text \<open>Running an extraction over a list of extraction points.\<close>

definition run_extraction :: "(json \<Rightarrow> string \<Rightarrow> path_index \<Rightarrow> 'u \<Rightarrow> 'u) \<Rightarrow> 'u \<Rightarrow> (json \<times> string \<times> path_index) list \<Rightarrow> 'u" where
  "run_extraction ext u events = foldl (\<lambda>u (obj, path, idx). ext obj path idx u) u events"

section \<open>Positions in a document\<close>

text \<open>
  A position is the list of steps from the root: into the value of a key, or into an
  element of a list. \<open>render\<close> is the path text the walk builds along those steps.
\<close>

datatype step = Key string | Idx nat

fun render_step :: "step \<Rightarrow> string" where
  "render_step (Key k) = ''.'' @ k"
| "render_step (Idx i) = ''['' @ show_nat i @ '']''"

definition render :: "string \<Rightarrow> step list \<Rightarrow> string" where
  "render path steps = path @ concat (map render_step steps)"

fun child :: "json \<Rightarrow> step \<Rightarrow> json option" where
  "child (JDict kvs) (Key k) = map_of kvs k"
| "child (JList xs) (Idx i) = (if i < length xs then Some (xs ! i) else None)"
| "child v s = None"

fun node_at :: "json \<Rightarrow> step list \<Rightarrow> json option" where
  "node_at v [] = Some v"
| "node_at v (s # steps) = (case child v s of Some c \<Rightarrow> node_at c steps | None \<Rightarrow> None)"

text \<open>A property of the key list of every mapping in a document.\<close>

fun keys_ok :: "(string list \<Rightarrow> bool) \<Rightarrow> json \<Rightarrow> bool" where
  "keys_ok ok (JDict kvs) = (ok (map fst kvs) \<and> list_all (keys_ok ok) (map snd kvs))"
| "keys_ok ok (JList xs) = list_all (keys_ok ok) xs"
| "keys_ok ok v = True"

text \<open>The keys of a Python \<open>dict\<close> are pairwise distinct.\<close>

definition distinct_keys :: "json \<Rightarrow> bool" where
  "distinct_keys doc = keys_ok distinct doc"



section \<open>Rows and errors of an extraction point\<close>

text \<open>
  A table, as extraction sees it: the key its rows are stored under, its attachment
  pattern, and the attempt that assembles a record at a node and validates it.
  \<open>done.py\<close> keys the results by \<open>spec.path_pattern\<close>, \<open>JSONParser\<close> by model name.
\<close>

type_synonym ('e, 'r) table = "string \<times> string \<times> (json \<Rightarrow> string \<Rightarrow> path_index \<Rightarrow> 'e + 'r)"

definition done_table :: "('e, 'r) model_spec \<Rightarrow> ('e, 'r) table" where
  "done_table spec =
     (path_pattern spec, path_pattern spec,
      \<lambda>obj path idx.
        model_validate (spec_model_cls spec) (build_model_data obj path spec idx))"

definition parser_table :: "('e, 'r) json_parser \<Rightarrow> string \<times> ('e, 'r) parser_spec \<Rightarrow> ('e, 'r) table" where
  "parser_table self entry =
     (case entry of (model_name, spec) \<Rightarrow>
        (model_name, json_path_pattern spec,
         \<lambda>obj path idx.
           (case map_of (model_adapters self) model_name of
              Some v \<Rightarrow> v | None \<Rightarrow> model_validate (data_model spec))
             (parsing_build_model_data idx
                (case map_of (model_fields_cache self) model_name of
                   Some fs \<Rightarrow> fs | None \<Rightarrow> [])
                path)))"

text \<open>The rows stored under \<open>key\<close> at one extraction point: one for each table with that
  key whose pattern matches the path and whose record validates, in table order.\<close>

definition rows_at :: "('e, 'r) table list \<Rightarrow> string \<Rightarrow> json \<times> string \<times> path_index \<Rightarrow> 'r list" where
  "rows_at tables key ev =
     (case ev of (obj, path, idx) \<Rightarrow>
        concat (map (\<lambda>(k, pat, attempt).
                       if k = key \<and> path_matches path pat
                       then (case attempt obj path idx of Inr row \<Rightarrow> [row] | Inl e \<Rightarrow> [])
                       else [])
                    tables))"

text \<open>The errors collected at one extraction point: one for each table whose pattern
  matches the path and whose record fails validation, in table order.\<close>

definition errors_at :: "('e, 'r) table list \<Rightarrow> json \<times> string \<times> path_index \<Rightarrow> 'e extraction_error list" where
  "errors_at tables ev =
     (case ev of (obj, path, idx) \<Rightarrow>
        concat (map (\<lambda>(k, pat, attempt).
                       if path_matches path pat
                       then (case attempt obj path idx of
                               Inl e \<Rightarrow> [\<lparr>err_path = path, err_model = k, err_errors = e\<rparr>]
                             | Inr row \<Rightarrow> [])
                       else [])
                    tables))"

text \<open>The result set that holds, under each of \<open>keys\<close>, the rows of all extraction
  points in order.\<close>

definition result_set :: "string list \<Rightarrow> ('e, 'r) table list \<Rightarrow> (json \<times> string \<times> path_index) list \<Rightarrow> (string \<Rightarrow> 'r list option)" where
  "result_set keys tables events =
     (\<lambda>key. if key \<in> set keys then Some (concat (map (rows_at tables key) events)) else None)"

definition error_list :: "('e, 'r) table list \<Rightarrow> (json \<times> string \<times> path_index) list \<Rightarrow> 'e extraction_error list" where
  "error_list tables events = concat (map (errors_at tables) events)"

text \<open>The generic body of the loop over tables at one extraction point.\<close>

definition attempt_step :: "json \<Rightarrow> string \<Rightarrow> path_index \<Rightarrow> (string \<Rightarrow> 'r list option) \<times> 'e extraction_error list \<Rightarrow> ('e, 'r) table \<Rightarrow> (string \<Rightarrow> 'r list option) \<times> 'e extraction_error list" where
  "attempt_step obj path idx st t =
     (case st of (res, errs) \<Rightarrow>
      case t of (key, pat, attempt) \<Rightarrow>
        if path_matches path pat then
          (case attempt obj path idx of
             Inr row \<Rightarrow> (append_result res key row, errs)
           | Inl e \<Rightarrow> (res, errs @ [\<lparr>err_path = path, err_model = key, err_errors = e\<rparr>]))
        else (res, errs))"

text \<open>The rows stored under a key; none when the key is missing.\<close>

definition rows_of :: "(string \<Rightarrow> 'r list option) \<Rightarrow> string \<Rightarrow> 'r list" where
  "rows_of res key = (case res key of Some rows \<Rightarrow> rows | None \<Rightarrow> [])"

section \<open>A small schema and document for concrete checks\<close>

text \<open>A validator that requires every field: it reports the names of the fields whose
  value is \<open>None\<close>.\<close>

definition require_all :: "(string \<times> json) list \<Rightarrow> string list + (string \<times> json) list" where
  "require_all data =
     (let missing = map fst (filter (\<lambda>(k, v). v = JNull) data)
      in if missing = [] then Inr data else Inl missing)"

definition plain_field :: "string \<Rightarrow> field_info" where
  "plain_field a =
     \<lparr>field_alias = Some a, extra_primary_key = False, constraint_primary_key = False\<rparr>"

definition item_cls :: "(string list, (string \<times> json) list) model_cls" where
  "item_cls =
     \<lparr>cls_name = ''Item'',
      model_fields = [(''invoice_id'', plain_field ''root.id''),
                      (''id'', plain_field ''root.items[*].id'')],
      model_validate = require_all\<rparr>"

definition item_spec :: "(string list, (string \<times> json) list) model_spec" where
  "item_spec =
     \<lparr>spec_model_cls = item_cls, path_pattern = ''root.items[*]'',
      parent_pattern = Some ''root''\<rparr>"

definition item_parser :: "(string list, (string \<times> json) list) json_parser" where
  "item_parser =
     \<lparr>model_specs = [(''Item'', \<lparr>data_model = item_cls, json_path_pattern = ''root.items[*]''\<rparr>)],
      model_adapters = [(''Item'', require_all)],
      results = Map.empty, errors = [], indexed_cache = Map.empty,
      model_fields_cache =
        [(''Item'', [(''invoice_id'', ''root.id'', False),
                     (''id'', ''root.items[*].id'', True)])]\<rparr>"

definition invoice_doc :: json where
  "invoice_doc =
     JDict [(''id'', JStr ''INV-1''),
            (''items'', JList [JDict [(''id'', JStr ''A'')], JDict [(''sku'', JStr ''x'')]])]"

definition batch_doc1 :: json where
  "batch_doc1 = JDict [(''id'', JStr ''INV-1''), (''items'', JList [JDict [(''id'', JStr ''A'')]])]"

definition batch_doc2 :: json where
  "batch_doc2 = JDict [(''items'', JList [JDict [(''id'', JStr ''B'')]])]"

definition invalid_schema :: "('e, 'r) model_cls \<Rightarrow> bool" where
  "invalid_schema cls =
     (model_fields cls = [] \<or> list_ex (\<lambda>(n, info). field_alias info = None) (model_fields cls))"

definition empty_cls :: "(string list, (string \<times> json) list) model_cls" where
  "empty_cls = \<lparr>cls_name = ''Empty'', model_fields = [], model_validate = require_all\<rparr>"

definition no_alias_cls :: "(string list, (string \<times> json) list) model_cls" where
  "no_alias_cls =
     \<lparr>cls_name = ''NoAlias'',
      model_fields = [(''id'', \<lparr>field_alias = None, extra_primary_key = False,
                                constraint_primary_key = False\<rparr>)],
      model_validate = require_all\<rparr>"

text \<open>All paths agree with the first one at position \<open>i\<close>, up to the index of an
  array segment.\<close>

definition agree_at :: "string list list \<Rightarrow> nat \<Rightarrow> bool" where
  "agree_at pss i = list_all (\<lambda>segs. key_base (segs ! i) = key_base (hd pss ! i)) pss"

text \<open>The segments of an alias without its last one.\<close>

definition prefix_segments :: "string \<Rightarrow> string list" where
  "prefix_segments a = butlast (split_dot a)"

definition declared_aliases :: "('e, 'r) model_cls \<Rightarrow> string list" where
  "declared_aliases cls =
     concat (map (\<lambda>(n, info). case field_alias info of Some a \<Rightarrow> [a] | None \<Rightarrow> [])
               (model_fields cls))"

text \<open>\<open>n\<close> is the number of leading positions at which all segment lists agree.\<close>

definition common_depth :: "string list list \<Rightarrow> nat \<Rightarrow> bool" where
  "common_depth pss n =
     (list_all (\<lambda>segs. n \<le> length segs) pss
      \<and> list_all (agree_at pss) [0..<n]
      \<and> (list_ex (\<lambda>segs. length segs = n) pss \<or> \<not> agree_at pss n))"

text \<open>The attachment-pattern rule of \<open>JSONParser\<close>, for the aliases of one model.\<close>

definition attachment_rule :: "string list \<Rightarrow> string \<Rightarrow> bool" where
  "attachment_rule aliases pattern =
     (let wild = filter has_wildcard aliases
      in if wild \<noteq> [] then
           list_ex (\<lambda>a. pattern = join_dot (prefix_segments a)
                        \<and> list_all (\<lambda>b. length (prefix_segments b)
                                            \<le> length (prefix_segments a)) wild) wild
         else
           (\<exists>n. common_depth (map prefix_segments aliases) n
                \<and> pattern = (if n = 0 then ''root''
                              else join_dot (take n (prefix_segments (hd aliases))))))"

definition construct_and_parse :: "('e, 'r) model_cls list \<Rightarrow> json \<Rightarrow> init_error + (('e parse_error + (string \<Rightarrow> 'r list option)) \<times> ('e, 'r) json_parser)" where
  "construct_and_parse data_models json_obj =
     (case JSONParser_init data_models of
        Inl e \<Rightarrow> Inl e
      | Inr parser \<Rightarrow> Inr (parse parser json_obj))"

definition sku_cls :: "(string list, (string \<times> json) list) model_cls" where
  "sku_cls =
     \<lparr>cls_name = ''Sku'',
      model_fields = [(''id'', plain_field ''root.id''),
                      (''sku'', plain_field ''root.items[*].sku'')],
      model_validate = require_all\<rparr>"

definition geo_cls :: "(string list, (string \<times> json) list) model_cls" where
  "geo_cls =
     \<lparr>cls_name = ''Geo'',
      model_fields = [(''latitude'', plain_field ''root.geo.latitude''),
                      (''total'', plain_field ''root.total_amount'')],
      model_validate = require_all\<rparr>"

definition geo_parser :: "(string list, (string \<times> json) list) json_parser" where
  "geo_parser =
     \<lparr>model_specs = [(''Geo'', \<lparr>data_model = geo_cls, json_path_pattern = ''root''\<rparr>)],
      model_adapters = [(''Geo'', require_all)],
      results = Map.empty, errors = [], indexed_cache = Map.empty,
      model_fields_cache =
        [(''Geo'', [(''latitude'', ''root.geo.latitude'', False),
                    (''total'', ''root.total_amount'', False)])]\<rparr>"




text \<open>Every node below \<open>obj\<close> has its path in the index.\<close>

definition subtree_indexed :: "json \<Rightarrow> string \<Rightarrow> path_index \<Rightarrow> bool" where
  "subtree_indexed obj path idx =
     (\<forall>steps v. node_at obj steps = Some v \<longrightarrow> render path steps \<in> dom idx)"

text \<open>Every node on the way from the root to the position \<open>steps\<close>, the position
  itself included, has its path in the index.\<close>

definition ancestors_indexed :: "string \<Rightarrow> step list \<Rightarrow> path_index \<Rightarrow> bool" where
  "ancestors_indexed root steps idx =
     (\<forall>n \<le> length steps. render root (take n steps) \<in> dom idx)"

text \<open>
  An extraction point \<open>(ob, Q, i)\<close> met while walking \<open>obj\<close>, which lies \<open>pre\<close> below
  \<open>path\<close>: \<open>ob\<close> is a mapping at some position \<open>steps\<close> of \<open>obj\<close>, \<open>Q\<close> is the path of
  that position, and the index \<open>i\<close> holds every path from \<open>obj\<close> down to the position and
  every path below it.
\<close>

definition event_ok :: "string \<Rightarrow> json \<Rightarrow> step list \<Rightarrow> json \<times> string \<times> path_index \<Rightarrow> bool" where
  "event_ok path obj pre ev =
     (case ev of (ob, Q, i) \<Rightarrow>
        \<exists>steps. Q = render path (pre @ steps) \<and> node_at obj steps = Some ob
          \<and> (\<exists>kvs. ob = JDict kvs)
          \<and> (\<forall>n \<le> length steps. render path (pre @ take n steps) \<in> dom i)
          \<and> subtree_indexed ob Q i)"










text \<open>
  The normal form of a concrete path in the specification of the matcher: every array
  index \<open>[i]\<close>, \<open>i\<close> a non-empty run of digits, replaced by \<open>[*]\<close>, from the left.
\<close>

function replace_indices_with_wildcard :: "string \<Rightarrow> string" where
  "replace_indices_with_wildcard [] = []"
| "replace_indices_with_wildcard (c # cs) =
     (case index_at (c # cs) of
        Some (ds, r) \<Rightarrow> ''[*]'' @ replace_indices_with_wildcard r
      | None \<Rightarrow> c # replace_indices_with_wildcard cs)"
  by pat_completeness auto

termination
proof (relation "measure length")
  fix c cs x ds r
  assume "index_at (c # cs) = Some x" "(ds, r) = x"
  then have "index_at (c # cs) = Some (ds, r)" by simp
  then obtain y where "dropWhile is_digit cs = y # r"
    by (auto simp: index_at_def split: if_splits list.splits)
  then have "length r < length (dropWhile is_digit cs)" by simp
  also have "\<dots> \<le> length cs" by (rule length_dropWhile_le)
  finally show "(r, c # cs) \<in> measure length" by simp
qed simp_all

text \<open>The expression that \<open>path_matches\<close> compiles, read off the pattern: each \<open>[*]\<close>,
  from the left, stands for a bracketed digit run, every other character for itself.\<close>

fun pattern_items :: "string \<Rightarrow> re_item list" where
  "pattern_items (a # b # c # r) =
     (if a = CHR ''['' \<and> b = CHR ''*'' \<and> c = CHR '']''
      then Lit CHR ''['' # DigitPlus # Lit CHR '']'' # pattern_items r
      else Lit a # pattern_items (b # c # r))"
| "pattern_items (a # r) = Lit a # pattern_items r"
| "pattern_items [] = []"

text \<open>\<open>{"others[*]": {"name": "x"}, "items": [{"id": 1}]}\<close>: a key of the root holds
  \<open>[*]\<close>.\<close>

definition wildcard_key_doc :: json where
  "wildcard_key_doc =
     JDict [(''others[*]'', JDict [(''name'', JStr ''x'')]),
            (''items'', JList [JDict [(''id'', JNum 1)]])]"

text \<open>A table of the items with a field taken from under the array \<open>others\<close>.\<close>

definition others_cls :: "(string list, (string \<times> json) list) model_cls" where
  "others_cls =
     \<lparr>cls_name = ''Other'',
      model_fields = [(''id'', plain_field ''root.items[*].id''),
                      (''name'', plain_field ''root.others[*].name'')],
      model_validate = require_all\<rparr>"

definition others_spec :: "(string list, (string \<times> json) list) model_spec" where
  "others_spec =
     \<lparr>spec_model_cls = others_cls, path_pattern = ''root.items[*]'',
      parent_pattern = Some ''root''\<rparr>"

text \<open>\<open>{"items": [{"id": "A"}, {"id": "B"}]}\<close>\<close>

definition two_items_doc :: json where
  "two_items_doc = JDict [(''items'', JList [JDict [(''id'', JStr ''A'')], JDict [(''id'', JStr ''B'')]])]"

text \<open>A table whose only field has its own name as alias.\<close>

definition local_cls :: "(string list, (string \<times> json) list) model_cls" where
  "local_cls =
     \<lparr>cls_name = ''Local'', model_fields = [(''id'', plain_field ''id'')],
      model_validate = require_all\<rparr>"

definition local_spec :: "(string list, (string \<times> json) list) model_spec" where
  "local_spec =
     \<lparr>spec_model_cls = local_cls, path_pattern = ''root.items[*]'',
      parent_pattern = Some ''root''\<rparr>"

section \<open>Facts about splitting and joining\<close>

lemma split_on_nonempty: "split_on d s \<noteq> []"
  by (induction s) (auto split: list.splits)

lemma join_on_Cons: "ws \<noteq> [] \<Longrightarrow> join_on d (w # ws) = w @ d # join_on d ws"
  by (cases ws) auto

lemma join_split_on: "join_on d (split_on d s) = s"
proof (induction s)
  case Nil
  show ?case by simp
next
  case (Cons c cs)
  show ?case
  proof (cases "c = d")
    case True
    with Cons show ?thesis by (simp add: join_on_Cons split_on_nonempty)
  next
    case False
    obtain w ws where sp: "split_on d cs = w # ws"
      using split_on_nonempty [of d cs] by (cases "split_on d cs") auto
    have "join_on d ((c # w) # ws) = c # join_on d (w # ws)"
      by (cases ws) auto
    with False sp Cons show ?thesis by simp
  qed
qed

lemma join_split_dot: "join_dot (split_dot s) = s"
  by (simp add: join_dot_def split_dot_def join_split_on)

lemma contains_iff: "contains w s \<longleftrightarrow> (\<exists>p q. s = p @ w @ q)"
proof (induction s)
  case Nil
  show ?case by auto
next
  case (Cons c cs)
  show ?case
  proof
    assume "contains w (c # cs)"
    then consider "prefix w (c # cs)" | "contains w cs" by auto
    then show "\<exists>p q. c # cs = p @ w @ q"
    proof cases
      case 1
      then obtain q where "c # cs = w @ q" by (auto simp: prefix_def)
      then have "c # cs = [] @ w @ q" by simp
      then show ?thesis by blast
    next
      case 2
      with Cons obtain p q where "cs = p @ w @ q" by blast
      then have "c # cs = (c # p) @ w @ q" by simp
      then show ?thesis by blast
    qed
  next
    assume "\<exists>p q. c # cs = p @ w @ q"
    then obtain p q where pq: "c # cs = p @ w @ q" by blast
    show "contains w (c # cs)"
    proof (cases p)
      case Nil
      with pq have "prefix w (c # cs)" by (simp add: prefix_def)
      then show ?thesis by simp
    next
      case (Cons a p')
      with pq have "cs = p' @ w @ q" by simp
      with Cons.IH have "contains w cs" by blast
      then show ?thesis by simp
    qed
  qed
qed









section \<open>The walk runs its extraction on the extraction points\<close>

lemma run_extraction_append:
  "run_extraction ext u (a @ b) = run_extraction ext (run_extraction ext u a) b"
  by (simp add: run_extraction_def)

lemma run_extraction_Nil: "run_extraction ext u [] = u"
  by (simp add: run_extraction_def)

lemma run_extraction_single: "run_extraction ext u [(obj, path, idx)] = ext obj path idx u"
  by (simp add: run_extraction_def)

lemma run_extraction_Cons:
  "run_extraction ext u (ev # evs) =
     run_extraction ext (case ev of (obj, path, idx) \<Rightarrow> ext obj path idx u) evs"
  by (simp add: run_extraction_def split: prod.splits)


lemma walk_index_events_aux:
  "walk ext obj path st =
     (index_path obj path (fst st), run_extraction ext (snd st) (walk_events obj path (fst st)))"
  "walk_items ext kvs path st =
     (index_items kvs path (fst st), run_extraction ext (snd st) (items_events kvs path (fst st)))"
  "walk_elems ext xs i path st =
     (index_elems xs i path (fst st), run_extraction ext (snd st) (elems_events xs i path (fst st)))"
proof (induction ext obj path st and ext kvs path st and ext xs i path st
       rule: walk_walk_items_walk_elems.induct)
  case (1 ext kvs path idx u)
  then show ?case
    by (simp add: run_extraction_append run_extraction_single fun_upd_def)
next
  case (8 ext key v kvs path idx u)
  then show ?case
    by (simp add: Let_def run_extraction_append run_extraction_Nil fun_upd_def)
next
  case (10 ext item items i path idx u)
  then show ?case
    by (simp add: Let_def run_extraction_append run_extraction_Nil fun_upd_def)
qed (simp_all add: run_extraction_Nil fun_upd_def)

lemma extract_spec_is_attempt:
  "extract_spec_at_path obj path idx =
     (\<lambda>st spec. attempt_step obj path idx st (done_table spec))"
  by (intro ext)
     (simp add: extract_spec_at_path_def attempt_step_def done_table_def split: prod.splits)

lemma parsing_extract_is_attempt:
  "parsing_extract_model self path idx =
     (\<lambda>st entry. attempt_step obj path idx st (parser_table self entry))"
  by (intro ext)
     (simp add: parsing_extract_model_def attempt_step_def parser_table_def Let_def
           split: prod.splits)

lemma foldl_attempt_step:
  "foldl (attempt_step obj path idx) (res, errs) tables = (res', errs') \<Longrightarrow>
     errs' = errs @ errors_at tables (obj, path, idx)
     \<and> (\<forall>key. rows_of res' key = rows_of res key @ rows_at tables key (obj, path, idx))
     \<and> dom res \<subseteq> dom res' \<and> dom res' \<subseteq> dom res \<union> set (map fst tables)"
proof (induction tables arbitrary: res errs)
  case Nil
  then show ?case by (simp add: errors_at_def rows_at_def)
next
  case (Cons t tables)
  obtain k pat attempt where t: "t = (k, pat, attempt)" by (cases t) auto
  obtain res1 errs1 where s1: "attempt_step obj path idx (res, errs) t = (res1, errs1)"
    by (cases "attempt_step obj path idx (res, errs) t") auto
  have e1: "errs1 = errs @ errors_at [t] (obj, path, idx)"
    using s1 t by (auto simp: attempt_step_def errors_at_def split: if_splits sum.splits)
  have r1: "rows_of res1 key = rows_of res key @ rows_at [t] key (obj, path, idx)" for key
    using s1 t
    by (auto simp: attempt_step_def rows_at_def rows_of_def append_result_def
             split: if_splits sum.splits option.splits)
  have d1: "dom res \<subseteq> dom res1 \<and> dom res1 \<subseteq> dom res \<union> {k}"
    using s1 t
    by (auto simp: attempt_step_def append_result_def split: if_splits sum.splits)
  from Cons.prems s1 have "foldl (attempt_step obj path idx) (res1, errs1) tables = (res', errs')"
    by simp
  from Cons.IH [OF this]
  have ih: "errs' = errs1 @ errors_at tables (obj, path, idx)"
    "\<And>key. rows_of res' key = rows_of res1 key @ rows_at tables key (obj, path, idx)"
    "dom res1 \<subseteq> dom res'" "dom res' \<subseteq> dom res1 \<union> set (map fst tables)"
    by auto
  have ea: "errors_at (t # tables) ev = errors_at [t] ev @ errors_at tables ev" for ev
    by (simp add: errors_at_def split: prod.splits)
  have ra: "rows_at (t # tables) key ev = rows_at [t] key ev @ rows_at tables key ev" for key ev
    by (simp add: rows_at_def split: prod.splits)
  have "errs' = errs @ errors_at (t # tables) (obj, path, idx)"
    using e1 ih(1) ea by simp
  moreover have "\<forall>key. rows_of res' key
                   = rows_of res key @ rows_at (t # tables) key (obj, path, idx)"
    using r1 ih(2) ra by simp
  moreover have "dom res \<subseteq> dom res'"
    using d1 ih(3) by blast
  moreover have "dom res' \<subseteq> dom res \<union> set (map fst (t # tables))"
  proof -
    have "set (map fst (t # tables)) = {k} \<union> set (map fst tables)"
      using t by simp
    with d1 ih(4) show ?thesis by blast
  qed
  ultimately show ?case by blast
qed


lemma run_attempts:
  "run_extraction (\<lambda>obj path idx st. foldl (attempt_step obj path idx) st tables)
       (res, errs) events = (res', errs') \<Longrightarrow>
     errs' = errs @ error_list tables events
     \<and> (\<forall>key. rows_of res' key = rows_of res key @ concat (map (rows_at tables key) events))
     \<and> dom res \<subseteq> dom res' \<and> dom res' \<subseteq> dom res \<union> set (map fst tables)"
proof (induction events arbitrary: res errs)
  case Nil
  then show ?case by (simp add: run_extraction_Nil error_list_def)
next
  case (Cons ev events)
  obtain obj path idx where ev: "ev = (obj, path, idx)" by (cases ev) auto
  obtain res1 errs1 where
    s1: "foldl (attempt_step obj path idx) (res, errs) tables = (res1, errs1)"
    by (cases "foldl (attempt_step obj path idx) (res, errs) tables") auto
  note a = foldl_attempt_step [OF s1]
  from Cons.prems ev s1
  have "run_extraction (\<lambda>obj path idx st. foldl (attempt_step obj path idx) st tables)
          (res1, errs1) events = (res', errs')"
    by (simp add: run_extraction_Cons)
  note b = Cons.IH [OF this]
  have "errs' = errs @ error_list tables (ev # events)"
    using a b ev by (simp add: error_list_def)
  moreover have "\<forall>key. rows_of res' key
                   = rows_of res key @ concat (map (rows_at tables key) (ev # events))"
    using a b ev by simp
  moreover have "dom res \<subseteq> dom res'"
    using a b by blast
  moreover have "dom res' \<subseteq> dom res \<union> set (map fst tables)"
    using a b by blast
  ultimately show ?case by blast
qed

lemma dom_empty_results: "dom (empty_results keys) = set keys"
  by (simp add: empty_results_def dom_map_of_conv_image_fst image_image)

lemma rows_of_empty_results: "rows_of (empty_results keys) key = []"
  by (induction keys) (auto simp: empty_results_def rows_of_def)

lemma run_attempts_from_empty:
  assumes "run_extraction (\<lambda>obj path idx st. foldl (attempt_step obj path idx) st tables)
             (empty_results keys, errs) events = (res', errs')"
    and "set (map fst tables) \<subseteq> set keys"
  shows "res' = result_set keys tables events" and "errs' = errs @ error_list tables events"
proof -
  note a = run_attempts [OF assms(1)]
  show "errs' = errs @ error_list tables events" using a by blast
  have rows: "rows_of res' key = concat (map (rows_at tables key) events)" for key
    using a by (simp add: rows_of_empty_results)
  have dom: "dom res' = set keys"
  proof -
    from a have "set keys \<subseteq> dom res'" "dom res' \<subseteq> set keys \<union> set (map fst tables)"
      by (simp_all add: dom_empty_results)
    with assms(2) show ?thesis by blast
  qed
  show "res' = result_set keys tables events"
  proof
    fix key
    show "res' key = result_set keys tables events key"
    proof (cases "key \<in> set keys")
      case True
      with dom obtain rows where "res' key = Some rows" by auto
      with rows [of key] True show ?thesis
        by (simp add: result_set_def rows_of_def)
    next
      case False
      with dom have "res' key = None" by auto
      with False show ?thesis by (simp add: result_set_def)
    qed
  qed
qed

lemma extract_models_is_fold:
  "extract_models_at_path specs =
     (\<lambda>obj path idx st. foldl (attempt_step obj path idx) st (map done_table specs))"
  by (intro ext) (simp add: extract_models_at_path_def foldl_map extract_spec_is_attempt)

lemma parsing_extract_models_is_fold:
  "parsing_extract_models_at_path self =
     (\<lambda>obj path idx st. foldl (attempt_step obj path idx) st
                           (map (parser_table self) (model_specs self)))"
proof (intro ext)
  fix obj path idx st
  show "parsing_extract_models_at_path self obj path idx st =
          foldl (attempt_step obj path idx) st (map (parser_table self) (model_specs self))"
    by (simp add: parsing_extract_models_at_path_def foldl_map
             parsing_extract_is_attempt [where obj = obj])
qed

lemma extract_model_data_eq:
  "extract_model_data doc specs =
     (result_set (map path_pattern specs) (map done_table specs)
        (walk_events doc ''root'' Map.empty),
      error_list (map done_table specs) (walk_events doc ''root'' Map.empty))"
proof -
  obtain res errs where r: "extract_model_data doc specs = (res, errs)"
    by (cases "extract_model_data doc specs") auto
  then have "run_extraction (extract_models_at_path specs)
               (empty_results (map path_pattern specs), [])
               (walk_events doc ''root'' Map.empty) = (res, errs)"
    by (simp add: extract_model_data_def walk_index_events_aux(1))
  then have run: "run_extraction
       (\<lambda>obj path idx st. foldl (attempt_step obj path idx) st (map done_table specs))
       (empty_results (map path_pattern specs), [])
       (walk_events doc ''root'' Map.empty) = (res, errs)"
    by (simp add: extract_models_is_fold)
  have keys: "set (map fst (map done_table specs)) \<subseteq> set (map path_pattern specs)"
    by (auto simp: done_table_def)
  from run_attempts_from_empty [OF run keys] r show ?thesis by simp
qed


lemma parser_table_frame:
  "parser_table (self\<lparr>indexed_cache := c, results := r, errors := e\<rparr>) = parser_table self"
  "parser_table (self\<lparr>results := r\<rparr>) = parser_table self"
  "parser_table (self\<lparr>indexed_cache := c\<rparr>) = parser_table self"
  by (intro ext, simp add: parser_table_def)+

lemma parsing_walk_eq:
  "parsing_walk self obj path =
     (let tables = map (parser_table self) (model_specs self);
          events = walk_events obj path (indexed_cache self);
          st = run_extraction (\<lambda>obj path idx st. foldl (attempt_step obj path idx) st tables)
                 (results self, errors self) events
      in self\<lparr>indexed_cache := index_path obj path (indexed_cache self),
              results := fst st, errors := snd st\<rparr>)"
  by (simp add: parsing_walk_def walk_index_events_aux(1) parsing_extract_models_is_fold
           Let_def split: prod.splits)

lemma parse_eq:
  "parse self doc =
     (let tables = map (parser_table self) (model_specs self);
          events = walk_events doc ''root'' Map.empty;
          res = result_set (map fst (model_specs self)) tables events;
          errs = errors self @ error_list tables events;
          self' = self\<lparr>indexed_cache := index_path doc ''root'' Map.empty,
                        results := res, errors := errs\<rparr>
      in (if errs \<noteq> [] then Inl (ValueError_errors errs) else Inr res, self'))"
proof -
  define tables where "tables = map (parser_table self) (model_specs self)"
  define events where "events = walk_events doc ''root'' Map.empty"
  define self2 where
    "self2 = (clear_index_cache self)\<lparr>results := empty_results (map fst (model_specs self))\<rparr>"
  obtain res errs where
    run: "run_extraction (\<lambda>obj path idx st. foldl (attempt_step obj path idx) st tables)
            (empty_results (map fst (model_specs self)), errors self) events = (res, errs)"
    by (cases "run_extraction (\<lambda>obj path idx st. foldl (attempt_step obj path idx) st tables)
            (empty_results (map fst (model_specs self)), errors self) events") auto
  have keys: "set (map fst tables) \<subseteq> set (map fst (model_specs self))"
    by (force simp: tables_def parser_table_def split: prod.splits)
  note r = run_attempts_from_empty [OF run keys]
  have t2: "map (parser_table self2) (model_specs self2) = tables"
    by (simp add: self2_def tables_def clear_index_cache_def parser_table_frame)
  have w: "parsing_walk self2 doc ''root'' =
             self\<lparr>indexed_cache := index_path doc ''root'' Map.empty,
                  results := res, errors := errs\<rparr>"
    unfolding parsing_walk_eq Let_def t2
    using run by (simp add: self2_def clear_index_cache_def events_def)
  show ?thesis
    unfolding parse_def Let_def
    using w r by (simp add: self2_def clear_index_cache_def tables_def events_def)
qed


section \<open>Rows are emitted only at matching paths\<close>

lemma init_item: "JSONParser_init [item_cls] = Inr item_parser"
  by (simp add: JSONParser_init_def item_cls_def item_parser_def plain_field_def
        infer_json_path_pattern_def model_specs_find_deepest_wildcard_path_def
        has_wildcard_def alias_parent_def split_dot_def join_dot_def count_dots_def)

lemma el: "error_list (map (parser_table item_parser) (model_specs item_parser)) (walk_events invoice_doc ''root'' Map.empty) = [\<lparr>err_path = ''root.items[1]'', err_model = ''Item'', err_errors = [''id'']\<rparr>]"
  by code_simp



lemma rows_at_single_mem:
  "row \<in> set (rows_at [(k, pat, attempt)] key (obj, path, idx)) \<longleftrightarrow>
     k = key \<and> path_matches path pat \<and> attempt obj path idx = Inr row"
proof (cases "attempt obj path idx")
  case (Inl e)
  then have "rows_at [(k, pat, attempt)] key (obj, path, idx) = []"
    by (simp add: rows_at_def)
  with Inl show ?thesis by simp
next
  case (Inr r)
  then have "rows_at [(k, pat, attempt)] key (obj, path, idx)
               = (if k = key \<and> path_matches path pat then [r] else [])"
    by (simp add: rows_at_def)
  with Inr show ?thesis by auto
qed

lemma rows_at_sound:
  "row \<in> set (rows_at tables key (obj, path, idx)) \<Longrightarrow>
     \<exists>(k, pat, attempt) \<in> set tables.
        k = key \<and> path_matches path pat \<and> attempt obj path idx = Inr row"
proof (induction tables)
  case Nil
  then show ?case by (simp add: rows_at_def)
next
  case (Cons t tables)
  obtain k pat attempt where tt: "t = (k, pat, attempt)" by (cases t) auto
  have split: "rows_at (t # tables) key (obj, path, idx)
                 = rows_at [t] key (obj, path, idx) @ rows_at tables key (obj, path, idx)"
    by (simp add: rows_at_def)
  from Cons.prems split
  consider "row \<in> set (rows_at [t] key (obj, path, idx))"
    | "row \<in> set (rows_at tables key (obj, path, idx))"
    by auto
  then show ?case
  proof cases
    case 1
    with tt have "k = key \<and> path_matches path pat \<and> attempt obj path idx = Inr row"
      by (simp add: rows_at_single_mem)
    with tt show ?thesis by simp
  next
    case 2
    with Cons.IH show ?thesis by auto
  qed
qed

lemma result_set_sound:
  assumes "result_set keys tables events key = Some rows" and "row \<in> set rows"
  shows "\<exists>(obj, path, idx) \<in> set events. \<exists>(k, pat, attempt) \<in> set tables.
           k = key \<and> path_matches path pat \<and> attempt obj path idx = Inr row"
proof -
  from assms have "row \<in> set (concat (map (rows_at tables key) events))"
    by (auto simp: result_set_def split: if_splits)
  then obtain ev where ev: "ev \<in> set events" "row \<in> set (rows_at tables key ev)"
    by auto
  obtain obj path idx where e: "ev = (obj, path, idx)" by (cases ev) auto
  from rows_at_sound [of row tables key obj path idx] ev e show ?thesis
    by blast
qed

text \<open>
  C7. Every row stored for a table was assembled at an extraction point of the walk whose
  path matches the table's attachment pattern, and it is the validated record built at
  that point: for \<open>extract_model_data\<close> (rows keyed by \<open>spec.path_pattern\<close>) and for
  \<open>JSONParser.parse\<close> (rows keyed by model name).
\<close>

theorem rows_only_at_matching_paths:
  "(fst (extract_model_data doc specs) key = Some rows \<and> row \<in> set rows \<longrightarrow>
      (\<exists>spec \<in> set specs. \<exists>(obj, path, idx) \<in> set (walk_events doc ''root'' Map.empty).
          path_pattern spec = key \<and> path_matches path (path_pattern spec)
          \<and> model_validate (spec_model_cls spec) (build_model_data obj path spec idx)
              = Inr row))
   \<and> (results (snd (parse self doc)) name = Some rows' \<and> row' \<in> set rows' \<longrightarrow>
      (\<exists>(n, spec) \<in> set (model_specs self).
         \<exists>(obj, path, idx) \<in> set (walk_events doc ''root'' Map.empty).
          n = name \<and> path_matches path (json_path_pattern spec)
          \<and> snd (snd (parser_table self (n, spec))) obj path idx = Inr row'))"
proof (intro conjI impI)
  assume a: "fst (extract_model_data doc specs) key = Some rows \<and> row \<in> set rows"
  then have "result_set (map path_pattern specs) (map done_table specs)
               (walk_events doc ''root'' Map.empty) key = Some rows"
    by (simp add: extract_model_data_eq)
  from result_set_sound [OF this, of row] a
  obtain obj path idx k pat attempt where
    ev: "(obj, path, idx) \<in> set (walk_events doc ''root'' Map.empty)"
    and t: "(k, pat, attempt) \<in> set (map done_table specs)"
    and m: "k = key" "path_matches path pat" "attempt obj path idx = Inr row"
    by blast
  from t obtain spec where sp: "spec \<in> set specs" "done_table spec = (k, pat, attempt)"
    by auto
  from sp(2) m have "path_pattern spec = key \<and> path_matches path (path_pattern spec)
          \<and> model_validate (spec_model_cls spec) (build_model_data obj path spec idx) = Inr row"
    by (auto simp: done_table_def)
  with sp(1) ev show "\<exists>spec \<in> set specs.
      \<exists>(obj, path, idx) \<in> set (walk_events doc ''root'' Map.empty).
          path_pattern spec = key \<and> path_matches path (path_pattern spec)
          \<and> model_validate (spec_model_cls spec) (build_model_data obj path spec idx) = Inr row"
    by blast
next
  assume a: "results (snd (parse self doc)) name = Some rows' \<and> row' \<in> set rows'"
  then have "result_set (map fst (model_specs self))
               (map (parser_table self) (model_specs self))
               (walk_events doc ''root'' Map.empty) name = Some rows'"
    by (simp add: parse_eq Let_def)
  from result_set_sound [OF this, of row'] a
  obtain obj path idx k pat attempt where
    ev: "(obj, path, idx) \<in> set (walk_events doc ''root'' Map.empty)"
    and t: "(k, pat, attempt) \<in> set (map (parser_table self) (model_specs self))"
    and m: "k = name" "path_matches path pat" "attempt obj path idx = Inr row'"
    by blast
  from t obtain n spec where sp: "(n, spec) \<in> set (model_specs self)"
      "parser_table self (n, spec) = (k, pat, attempt)"
    by auto
  from sp(2) have "n = k" "json_path_pattern spec = pat"
    by (auto simp: parser_table_def)
  with sp(2) m have "n = name \<and> path_matches path (json_path_pattern spec)
          \<and> snd (snd (parser_table self (n, spec))) obj path idx = Inr row'"
    by simp
  with sp(1) ev show "\<exists>(n, spec) \<in> set (model_specs self).
         \<exists>(obj, path, idx) \<in> set (walk_events doc ''root'' Map.empty).
          n = name \<and> path_matches path (json_path_pattern spec)
          \<and> snd (snd (parser_table self (n, spec))) obj path idx = Inr row'"
    by blast
qed

lemma item_rows_done:
  "fst (extract_model_data invoice_doc [item_spec]) ''root.items[*]''
     = Some [[(''invoice_id'', JStr ''INV-1''), (''id'', JStr ''A'')]]"
  by code_simp

lemma item_rows_parser:
  "results (snd (parse item_parser invoice_doc)) ''Item''
     = Some [[(''invoice_id'', JStr ''INV-1''), (''id'', JStr ''A'')]]"
  by code_simp

theorem rows_only_at_matching_paths_witness:
  "(\<exists>spec \<in> set [item_spec].
      \<exists>(obj, path, idx) \<in> set (walk_events invoice_doc ''root'' Map.empty).
          path_pattern spec = ''root.items[*]'' \<and> path_matches path (path_pattern spec)
          \<and> model_validate (spec_model_cls spec) (build_model_data obj path spec idx)
              = Inr [(''invoice_id'', JStr ''INV-1''), (''id'', JStr ''A'')])
   \<and> (\<exists>(n, spec) \<in> set (model_specs item_parser).
         \<exists>(obj, path, idx) \<in> set (walk_events invoice_doc ''root'' Map.empty).
          n = ''Item'' \<and> path_matches path (json_path_pattern spec)
          \<and> snd (snd (parser_table item_parser (n, spec))) obj path idx
              = Inr [(''invoice_id'', JStr ''INV-1''), (''id'', JStr ''A'')])"
proof -
  note t = rows_only_at_matching_paths
          [of invoice_doc "[item_spec]" "''root.items[*]''"
              "[[(''invoice_id'', JStr ''INV-1''), (''id'', JStr ''A'')]]"
              "[(''invoice_id'', JStr ''INV-1''), (''id'', JStr ''A'')]"
              item_parser "''Item''"
              "[[(''invoice_id'', JStr ''INV-1''), (''id'', JStr ''A'')]]"
              "[(''invoice_id'', JStr ''INV-1''), (''id'', JStr ''A'')]"]
  have a: "fst (extract_model_data invoice_doc [item_spec]) ''root.items[*]''
             = Some [[(''invoice_id'', JStr ''INV-1''), (''id'', JStr ''A'')]]
           \<and> [(''invoice_id'', JStr ''INV-1''), (''id'', JStr ''A'')]
               \<in> set [[(''invoice_id'', JStr ''INV-1''), (''id'', JStr ''A'')]]"
    using item_rows_done by simp
  have b: "results (snd (parse item_parser invoice_doc)) ''Item''
             = Some [[(''invoice_id'', JStr ''INV-1''), (''id'', JStr ''A'')]]
           \<and> [(''invoice_id'', JStr ''INV-1''), (''id'', JStr ''A'')]
               \<in> set [[(''invoice_id'', JStr ''INV-1''), (''id'', JStr ''A'')]]"
    using item_rows_parser by simp
  from t [THEN conjunct1, THEN mp, OF a] t [THEN conjunct2, THEN mp, OF b]
  show ?thesis by (rule conjI)
qed


section \<open>Validation failures\<close>

text \<open>
  C1, as stated, fails for \<open>JSONParser.parse\<close>: on a document with one record that fails
  validation the call raises \<open>ValueError\<close> with the error list, and returns no result
  set. (\<open>item_parser\<close> is the parser that \<open>JSONParser([Item])\<close> builds, by
  \<open>init_item\<close>.)
\<close>

theorem parse_raises_on_validation_failure:
  "fst (parse item_parser invoice_doc)
     = Inl (ValueError_errors
              [\<lparr>err_path = ''root.items[1]'', err_model = ''Item'', err_errors = [''id'']\<rparr>])"
proof -
  have "errors item_parser = []" by (simp add: item_parser_def)
  with el show ?thesis by (simp add: parse_eq Let_def)
qed

text \<open>
  C1, amended. Validation failures never stop the walk: the errors are exactly the
  failures of all matching tables at all extraction points of the document, in order, and
  the rows are exactly the successes. \<open>extract_model_data\<close> returns the result set and the
  error list together. \<open>JSONParser.parse\<close> runs the same complete walk, appends the
  failures to the parser's error list, and then raises \<open>ValueError\<close> carrying that list
  when it is not empty; otherwise it returns the result set alone.
\<close>

theorem validation_failures_are_collected:
  "extract_model_data doc specs =
     (result_set (map path_pattern specs) (map done_table specs)
        (walk_events doc ''root'' Map.empty),
      error_list (map done_table specs) (walk_events doc ''root'' Map.empty))
   \<and> errors (snd (parse self doc)) =
       errors self @ error_list (map (parser_table self) (model_specs self))
                       (walk_events doc ''root'' Map.empty)
   \<and> results (snd (parse self doc)) =
       result_set (map fst (model_specs self)) (map (parser_table self) (model_specs self))
         (walk_events doc ''root'' Map.empty)
   \<and> fst (parse self doc) =
       (if errors (snd (parse self doc)) \<noteq> []
        then Inl (ValueError_errors (errors (snd (parse self doc))))
        else Inr (results (snd (parse self doc))))"
  by (simp add: extract_model_data_eq parse_eq Let_def)

theorem validation_failures_are_collected_witness:
  "snd (extract_model_data invoice_doc [item_spec])
     = [\<lparr>err_path = ''root.items[1]'', err_model = ''root.items[*]'', err_errors = [''id'']\<rparr>]
   \<and> fst (extract_model_data invoice_doc [item_spec]) ''root.items[*]''
     = Some [[(''invoice_id'', JStr ''INV-1''), (''id'', JStr ''A'')]]"
proof -
  have a: "error_list (map done_table [item_spec]) (walk_events invoice_doc ''root'' Map.empty)
     = [\<lparr>err_path = ''root.items[1]'', err_model = ''root.items[*]'', err_errors = [''id'']\<rparr>]"
    by code_simp
  have b: "result_set (map path_pattern [item_spec]) (map done_table [item_spec])
        (walk_events invoice_doc ''root'' Map.empty) ''root.items[*]''
     = Some [[(''invoice_id'', JStr ''INV-1''), (''id'', JStr ''A'')]]"
    by code_simp
  from validation_failures_are_collected
         [of invoice_doc "[item_spec]" item_parser, THEN conjunct1] a b
  show ?thesis by simp
qed


section \<open>State kept across documents and calls\<close>

text \<open>
  C2 at a concrete input. In \<open>parse_batch\<close> the index is never cleared: when the walk of
  the second document begins it still holds \<open>root.id\<close> of the first, and the second
  document's item, which has no root \<open>id\<close> of its own, is emitted with the first
  document's. The parser's error list is never reset either: after one call of \<open>parse\<close>
  that collected an error, a later call on a document that validates cleanly still holds
  (and raises) the old error.
\<close>

theorem batch_index_and_errors_leak:
  "indexed_cache (snd (parse_batch item_parser [batch_doc1])) ''root.id'' = Some (JStr ''INV-1'')
   \<and> fst (parse_batch item_parser [batch_doc1, batch_doc2]) ''Item''
       = Some [[(''invoice_id'', JStr ''INV-1''), (''id'', JStr ''A'')],
               [(''invoice_id'', JStr ''INV-1''), (''id'', JStr ''B'')]]
   \<and> errors (snd (parse item_parser batch_doc2))
       = [\<lparr>err_path = ''root.items[0]'', err_model = ''Item'', err_errors = [''invoice_id'']\<rparr>]
   \<and> errors (snd (parse item_parser batch_doc1)) = []
   \<and> errors (snd (parse (snd (parse item_parser batch_doc2)) batch_doc1))
       = [\<lparr>err_path = ''root.items[0]'', err_model = ''Item'', err_errors = [''invoice_id'']\<rparr>]"
  by code_simp

section \<open>Spec compilation\<close>

lemma collect_fields_None:
  "list_ex (\<lambda>(n, info). field_alias info = None) fs \<Longrightarrow> \<exists>e. collect_fields fs = Inl e"
proof (induction fs)
  case Nil
  then show ?case by simp
next
  case (Cons f fs)
  obtain n info where f: "f = (n, info)" by (cases f) auto
  show ?case
  proof (cases "field_alias info")
    case None
    with f show ?thesis by simp
  next
    case (Some a)
    with Cons.prems f have "list_ex (\<lambda>(n, info). field_alias info = None) fs" by simp
    from Cons.IH [OF this] obtain e where "collect_fields fs = Inl e" by blast
    with f Some show ?thesis by simp
  qed
qed

lemma collect_fields_Some:
  "\<not> list_ex (\<lambda>(n, info). field_alias info = None) fs \<Longrightarrow>
     \<exists>fl. collect_fields fs = Inr fl \<and> length fl = length fs"
  by (induction fs rule: collect_fields.induct) (auto split: option.splits sum.splits)

lemma infer_pattern_Nil: "infer_json_path_pattern [] = Inl ValueError_empty_sequence"
  by (simp add: infer_json_path_pattern_def model_specs_find_deepest_common_path_pattern_def)

lemma infer_pattern_nonempty:
  "fl \<noteq> [] \<Longrightarrow> \<exists>pat. infer_json_path_pattern fl = Inr pat"
proof -
  assume ne: "fl \<noteq> []"
  show ?thesis
  proof (cases "map (\<lambda>(n, a, w). a) (filter (\<lambda>(n, a, w). w) fl) = []")
    case True
    with ne show ?thesis
      by (simp add: infer_json_path_pattern_def
            model_specs_find_deepest_common_path_pattern_def Let_def)
  next
    case False
    then show ?thesis
      by (auto simp: infer_json_path_pattern_def model_specs_find_deepest_wildcard_path_def
               Let_def split: list.splits)
  qed
qed

lemma compile_invalid:
  "invalid_schema cls \<Longrightarrow>
     (\<exists>e. collect_fields (model_fields cls) = Inl e)
     \<or> (\<exists>e. collect_fields (model_fields cls) = Inr [] \<and> infer_json_path_pattern [] = Inl e)"
proof -
  assume "invalid_schema cls"
  then consider "list_ex (\<lambda>(n, info). field_alias info = None) (model_fields cls)"
    | "model_fields cls = []"
    by (auto simp: invalid_schema_def)
  then show ?thesis
  proof cases
    case 1
    then show ?thesis using collect_fields_None by blast
  next
    case 2
    then show ?thesis by (simp add: infer_pattern_Nil)
  qed
qed

lemma create_specs_fails:
  "list_ex invalid_schema data_models \<Longrightarrow>
     \<exists>e. model_specs_create_specs_and_adapters self data_models = Inl e"
proof (induction data_models arbitrary: self)
  case Nil
  then show ?case by simp
next
  case (Cons cls data_models)
  show ?case
  proof (cases "invalid_schema cls")
    case True
    from compile_invalid [OF True]
    consider e where "collect_fields (model_fields cls) = Inl e"
      | e where "collect_fields (model_fields cls) = Inr []"
          "infer_json_path_pattern [] = Inl e"
      by blast
    then show ?thesis
    proof cases
      case 1
      then show ?thesis by simp
    next
      case 2
      then show ?thesis by (simp add: infer_pattern_Nil)
    qed
  next
    case False
    with Cons.prems have "list_ex invalid_schema data_models" by simp
    from Cons.IH [OF this] show ?thesis
      by (auto split: sum.splits)
  qed
qed

lemma create_specs_succeeds:
  "\<not> list_ex invalid_schema data_models \<Longrightarrow>
     \<exists>p. model_specs_create_specs_and_adapters self data_models = Inr p"
proof (induction data_models arbitrary: self)
  case Nil
  then show ?case by simp
next
  case (Cons cls data_models)
  from Cons.prems have "\<not> invalid_schema cls"
    and rest: "\<not> list_ex invalid_schema data_models"
    by simp_all
  then have v: "model_fields cls \<noteq> []"
      "\<not> list_ex (\<lambda>(n, info). field_alias info = None) (model_fields cls)"
    by (simp_all add: invalid_schema_def)
  from collect_fields_Some [OF v(2)] obtain fl where
    fl: "collect_fields (model_fields cls) = Inr fl" "length fl = length (model_fields cls)"
    by blast
  with v(1) have "fl \<noteq> []" by auto
  from infer_pattern_nonempty [OF this] obtain pat where
    pat: "infer_json_path_pattern fl = Inr pat" by blast
  from Cons.IH [OF rest] fl pat show ?case by simp
qed

lemma spec_compilation_fails_on_invalid_schema:
  "(\<exists>e. JSONParser_init data_models = Inl e) \<longleftrightarrow> list_ex invalid_schema data_models"
proof
  assume "\<exists>e. JSONParser_init data_models = Inl e"
  show "list_ex invalid_schema data_models"
  proof (rule ccontr)
    assume "\<not> list_ex invalid_schema data_models"
    from create_specs_succeeds [OF this]
    obtain p where "JSONParser_init data_models = Inr p"
      unfolding JSONParser_init_def by blast
    with \<open>\<exists>e. JSONParser_init data_models = Inl e\<close> show False by auto
  qed
next
  assume "list_ex invalid_schema data_models"
  from create_specs_fails [OF this] show "\<exists>e. JSONParser_init data_models = Inl e"
    unfolding JSONParser_init_def by blast
qed

lemma split_on_hd: "split_on d s = takeWhile (\<lambda>c. c \<noteq> d) s # tl (split_on d s)"
  by (induction s) (auto split: list.splits)

lemma key_base_takeWhile: "key_base seg = takeWhile (\<lambda>c. c \<noteq> CHR ''['') seg"
  by (subst key_base_def, subst split_on_hd) simp

lemma contains_single: "contains [c] s \<longleftrightarrow> c \<in> set s"
  by (induction s) auto

lemma key_base_no_bracket: "CHR ''['' \<notin> set seg \<Longrightarrow> key_base seg = seg"
  by (auto simp: key_base_takeWhile takeWhile_eq_all_conv)

lemma same_base_iff: "same_base b seg \<longleftrightarrow> key_base seg = b"
proof (cases "CHR ''['' \<in> set seg")
  case True
  then show ?thesis by (simp add: same_base_def contains_single)
next
  case False
  with key_base_no_bracket [OF False] show ?thesis
    by (simp add: same_base_def contains_single)
qed

lemma first_base_is_key_base:
  "(if contains ''['' seg then key_base seg else seg) = key_base seg"
  using key_base_no_bracket [of seg] by (simp add: contains_single)

lemma common_loop_step:
  assumes "pss \<noteq> []"
  shows "common_loop pss m i acc =
           (if i < m then
              (if agree_at pss i then common_loop pss m (i + 1) (acc @ [hd pss ! i]) else acc)
            else acc)"
proof -
  have hd0: "map (\<lambda>segments. segments ! i) pss ! 0 = hd pss ! i"
    using assms by (cases pss) auto
  show ?thesis
    by (subst common_loop.simps)
       (simp add: Let_def hd0 first_base_is_key_base same_base_iff [abs_def]
          agree_at_def list_all_iff)
qed

lemma common_loop_spec:
  assumes "pss \<noteq> []" and "i \<le> m"
  shows "\<exists>n. i \<le> n \<and> n \<le> m
           \<and> common_loop pss m i acc = acc @ map (\<lambda>j. hd pss ! j) [i..<n]
           \<and> (\<forall>j. i \<le> j \<and> j < n \<longrightarrow> agree_at pss j)
           \<and> (n = m \<or> \<not> agree_at pss n)"
  using assms(2)
proof (induction "m - i" arbitrary: i acc)
  case 0
  then have "i = m" by simp
  then have "common_loop pss m i acc = acc"
    using common_loop_step [OF assms(1), of m i acc] by simp
  with \<open>i = m\<close> show ?case by auto
next
  case (Suc k)
  then have lt: "i < m" by simp
  show ?case
  proof (cases "agree_at pss i")
    case False
    then have "common_loop pss m i acc = acc"
      using common_loop_step [OF assms(1), of m i acc] by simp
    with False lt show ?thesis
      by (intro exI [of _ i]) auto
  next
    case True
    from Suc have "k = m - (i + 1)" "i + 1 \<le> m" by simp_all
    from Suc.hyps(1) [OF this, of "acc @ [hd pss ! i]"]
    obtain n where n: "i + 1 \<le> n" "n \<le> m"
      "common_loop pss m (i + 1) (acc @ [hd pss ! i])
         = (acc @ [hd pss ! i]) @ map (\<lambda>j. hd pss ! j) [i + 1..<n]"
      "\<forall>j. i + 1 \<le> j \<and> j < n \<longrightarrow> agree_at pss j"
      "n = m \<or> \<not> agree_at pss n"
      by blast
    from n(1) have upt: "[i..<n] = i # [i + 1..<n]"
      by (simp add: upt_conv_Cons)
    have eq: "common_loop pss m i acc = acc @ map (\<lambda>j. hd pss ! j) [i..<n]"
      using common_loop_step [OF assms(1), of m i acc] lt True n(3) upt by simp
    have ag: "\<forall>j. i \<le> j \<and> j < n \<longrightarrow> agree_at pss j"
    proof (intro allI impI)
      fix j assume "i \<le> j \<and> j < n"
      then consider "j = i" | "i + 1 \<le> j \<and> j < n" by force
      then show "agree_at pss j" using True n(4) by cases auto
    qed
    from n(1) n(2) eq ag n(5) show ?thesis
      by (intro exI [of _ n]) auto
  qed
qed

lemma length_split_on: "length (split_on d s) = Suc (length (filter (\<lambda>c. c = d) s))"
  by (induction s) (auto split: list.splits simp: split_on_nonempty)

lemma split_on_no_sep: "w \<in> set (split_on d s) \<Longrightarrow> d \<notin> set w"
proof (induction s arbitrary: w)
  case Nil
  then show ?case by simp
next
  case (Cons c cs)
  obtain v vs where sp: "split_on d cs = v # vs"
    using split_on_nonempty [of d cs] by (cases "split_on d cs") auto
  show ?case
  proof (cases "c = d")
    case True
    with Cons show ?thesis by auto
  next
    case False
    with Cons.prems sp have "w = c # v \<or> w \<in> set vs" by simp
    then show ?thesis
    proof
      assume "w = c # v"
      moreover have "d \<notin> set v" using Cons.IH [of v] sp by simp
      ultimately show ?thesis using False by simp
    next
      assume "w \<in> set vs"
      then show ?thesis using Cons.IH [of w] sp by simp
    qed
  qed
qed

lemma split_on_append_sep:
  "d \<notin> set w \<Longrightarrow> split_on d (w @ d # rest) = w # split_on d rest"
  by (induction w) auto

lemma split_on_no_sep_single: "d \<notin> set w \<Longrightarrow> split_on d w = [w]"
  by (induction w) auto

lemma split_join_on:
  "ws \<noteq> [] \<Longrightarrow> \<forall>w \<in> set ws. d \<notin> set w \<Longrightarrow> split_on d (join_on d ws) = ws"
proof (induction d ws rule: join_on.induct)
  case (1 d)
  then show ?case by simp
next
  case (2 d w)
  then show ?case by (simp add: split_on_no_sep_single)
next
  case (3 d w v ws)
  then show ?case by (simp add: split_on_append_sep)
qed

lemma prefix_segments_nonempty: "CHR ''.'' \<in> set a \<Longrightarrow> prefix_segments a \<noteq> []"
proof -
  assume "CHR ''.'' \<in> set a"
  then have "filter (\<lambda>c. c = CHR ''.'') a \<noteq> []"
    by (simp add: filter_empty_conv)
  then have "length (split_dot a) \<ge> 2"
    by (cases "filter (\<lambda>c. c = CHR ''.'') a") (simp_all add: split_dot_def length_split_on)
  then show ?thesis
    by (cases "split_dot a" rule: rev_cases) (auto simp: prefix_segments_def)
qed

lemma prefix_segments_no_dot: "w \<in> set (prefix_segments a) \<Longrightarrow> CHR ''.'' \<notin> set w"
  unfolding prefix_segments_def split_dot_def
  using split_on_no_sep in_set_butlastD by metis

lemma split_alias_parent:
  "CHR ''.'' \<in> set a \<Longrightarrow> split_dot (alias_parent a) = prefix_segments a"
  unfolding alias_parent_def split_dot_def join_dot_def
  using split_join_on [of "prefix_segments a" "CHR ''.''"]
    prefix_segments_nonempty [of a] prefix_segments_no_dot [of _ a]
  by (simp add: prefix_segments_def split_dot_def)

lemma count_dots_alias_parent:
  "CHR ''.'' \<in> set a \<Longrightarrow> Suc (count_dots (alias_parent a)) = length (prefix_segments a)"
  using split_alias_parent [of a] length_split_on [of "CHR ''.''" "alias_parent a"]
  by (simp add: count_dots_def split_dot_def)

lemma max_by_spec:
  "max_by key b xs \<in> set (b # xs) \<and> (\<forall>x \<in> set (b # xs). key x \<le> key (max_by key b xs))"
proof (induction xs arbitrary: b)
  case Nil
  show ?case by simp
next
  case (Cons x xs)
  let ?b = "if key b < key x then x else b"
  from Cons [of ?b] have m: "max_by key ?b xs \<in> set (?b # xs)"
    and le: "\<forall>y \<in> set (?b # xs). key y \<le> key (max_by key ?b xs)"
    by blast+
  from m have "max_by key b (x # xs) \<in> set (b # x # xs)" by auto
  moreover from le have "key ?b \<le> key (max_by key ?b xs)" by simp
  then have "key b \<le> key (max_by key ?b xs)" "key x \<le> key (max_by key ?b xs)"
    by (auto split: if_splits)
  with le have "\<forall>y \<in> set (b # x # xs). key y \<le> key (max_by key b (x # xs))"
    by auto
  ultimately show ?case by blast
qed

lemma collect_fields_aliases:
  "collect_fields fs = Inr fl \<Longrightarrow>
     map (\<lambda>(n, a, w). a) fl
       = concat (map (\<lambda>(n, info). case field_alias info of Some a \<Rightarrow> [a] | None \<Rightarrow> []) fs)
     \<and> list_all (\<lambda>(n, a, w). w = has_wildcard a) fl"
proof (induction fs arbitrary: fl)
  case Nil
  then show ?case by simp
next
  case (Cons f fs)
  obtain n info where f: "f = (n, info)" by (cases f) auto
  from Cons.prems f obtain a fl' where
    a: "field_alias info = Some a" and fl': "collect_fields fs = Inr fl'"
    and fl: "fl = (n, a, has_wildcard a) # fl'"
    by (auto split: option.splits sum.splits)
  from Cons.IH [OF fl'] f a fl show ?case by simp
qed

lemma wildcard_aliases_filter:
  "list_all (\<lambda>(n, a, w). w = has_wildcard a) fl \<Longrightarrow>
     map (\<lambda>(n, a, w). a) (filter (\<lambda>(n, a, w). w) fl)
       = filter has_wildcard (map (\<lambda>(n, a, w). a) fl)"
  by (induction fl) auto

lemma deepest_wildcard:
  assumes "wild \<noteq> []" and "\<forall>a \<in> set wild. CHR ''.'' \<in> set a"
  shows "\<exists>a \<in> set wild.
           model_specs_find_deepest_wildcard_path wild = Inr (join_dot (prefix_segments a))
           \<and> (\<forall>b \<in> set wild. length (prefix_segments b) \<le> length (prefix_segments a))"
proof -
  obtain p ps where pp: "map alias_parent wild = p # ps"
    using assms(1) by (cases "map alias_parent wild") auto
  define r where "r = max_by count_dots p ps"
  have res: "model_specs_find_deepest_wildcard_path wild = Inr r"
    by (simp add: model_specs_find_deepest_wildcard_path_def pp r_def)
  from max_by_spec [of count_dots p ps]
  have rin: "r \<in> set (map alias_parent wild)"
    and rmax: "\<forall>x \<in> set (map alias_parent wild). count_dots x \<le> count_dots r"
    unfolding r_def pp by blast+
  from rin obtain a where a: "a \<in> set wild" "r = alias_parent a" by auto
  have "\<forall>b \<in> set wild. length (prefix_segments b) \<le> length (prefix_segments a)"
  proof
    fix b assume b: "b \<in> set wild"
    with rmax a have "count_dots (alias_parent b) \<le> count_dots (alias_parent a)" by simp
    with count_dots_alias_parent [of a] count_dots_alias_parent [of b] assms(2) a(1) b
    show "length (prefix_segments b) \<le> length (prefix_segments a)" by fastforce
  qed
  with a res show ?thesis
    by (auto simp: alias_parent_def prefix_segments_def)
qed

lemma map_nth_upt_take: "n \<le> length xs \<Longrightarrow> map (\<lambda>j. xs ! j) [0..<n] = take n xs"
proof -
  assume n: "n \<le> length xs"
  have "take n xs = take n (map (\<lambda>j. xs ! j) [0..<length xs])"
    by (simp add: map_nth)
  also have "\<dots> = map (\<lambda>j. xs ! j) (take n [0..<length xs])"
    by (simp add: take_map)
  also have "\<dots> = map (\<lambda>j. xs ! j) [0..<n]"
    using n by (simp add: take_upt)
  finally show ?thesis by simp
qed

lemma deepest_common:
  assumes "aliases \<noteq> []" and "\<forall>a \<in> set aliases. CHR ''.'' \<in> set a"
  shows "\<exists>n. common_depth (map prefix_segments aliases) n
           \<and> model_specs_find_deepest_common_path_pattern aliases
               = Inr (if n = 0 then ''root''
                      else join_dot (take n (prefix_segments (hd aliases))))"
proof -
  define pss where "pss = map prefix_segments aliases"
  have pss: "map split_dot (map alias_parent aliases) = pss"
    using assms(2) by (simp add: pss_def split_alias_parent)
  have ne: "pss \<noteq> []" using assms(1) by (simp add: pss_def)
  define m where "m = Min (set (map length pss))"
  have fin: "finite (set (map length pss))" "set (map length pss) \<noteq> {}"
    using ne by simp_all
  have m_le: "\<forall>segs \<in> set pss. m \<le> length segs"
    unfolding m_def using fin by (simp add: Min_le)
  have m_in: "m \<in> set (map length pss)"
    unfolding m_def using fin by (rule Min_in)
  from common_loop_spec [OF ne, of 0 m "[]"]
  obtain n where n: "n \<le> m"
    "common_loop pss m 0 [] = map (\<lambda>j. hd pss ! j) [0..<n]"
    "\<forall>j. j < n \<longrightarrow> agree_at pss j" "n = m \<or> \<not> agree_at pss n"
    by auto
  have hd_in: "hd pss \<in> set pss" using ne by simp
  with m_le n(1) have nl: "n \<le> length (hd pss)" by fastforce
  have common: "common_loop pss m 0 [] = take n (hd pss)"
    using n(2) map_nth_upt_take [OF nl] by simp
  have empty_iff: "take n (hd pss) = [] \<longleftrightarrow> n = 0"
    using nl by (cases n) auto
  have hd: "hd pss = prefix_segments (hd aliases)"
    using assms(1) by (simp add: pss_def hd_map)
  have res: "model_specs_find_deepest_common_path_pattern aliases
               = Inr (if n = 0 then ''root'' else join_dot (take n (prefix_segments (hd aliases))))"
  proof -
    have "model_specs_find_deepest_common_path_pattern aliases
            = Inr (if common_loop pss m 0 [] \<noteq> [] then join_dot (common_loop pss m 0 [])
                   else ''root'')"
      unfolding model_specs_find_deepest_common_path_pattern_def Let_def pss m_def
      using ne by simp
    also have "\<dots> = Inr (if n = 0 then ''root'' else join_dot (take n (hd pss)))"
      unfolding common using empty_iff by simp
    finally show ?thesis unfolding hd .
  qed
  have "list_all (\<lambda>segs. n \<le> length segs) pss"
    using m_le n(1) by (auto simp: list_all_iff)
  moreover have "list_all (agree_at pss) [0..<n]"
    using n(3) by (simp add: list_all_iff)
  moreover have "list_ex (\<lambda>segs. length segs = n) pss \<or> \<not> agree_at pss n"
  proof (cases "n = m")
    case True
    with m_in show ?thesis by (auto simp: list_ex_iff)
  next
    case False
    with n(4) show ?thesis by simp
  qed
  ultimately have "common_depth pss n" by (simp add: common_depth_def)
  with res show ?thesis unfolding pss_def by blast
qed

lemma alist_update_entries:
  "(n, s) \<in> set (AList.update k v al) \<Longrightarrow> (n, s) = (k, v) \<or> (n, s) \<in> set al"
  by (induction al) (auto split: if_splits)

lemma infer_pattern_rule:
  assumes "collect_fields (model_fields cls) = Inr fl"
    and "infer_json_path_pattern fl = Inr pat"
    and "\<forall>a \<in> set (declared_aliases cls). CHR ''.'' \<in> set a"
  shows "attachment_rule (declared_aliases cls) pat"
proof -
  from collect_fields_aliases [OF assms(1)]
  have al: "map (\<lambda>(n, a, w). a) fl = declared_aliases cls"
    and w: "list_all (\<lambda>(n, a, w). w = has_wildcard a) fl"
    by (simp_all add: declared_aliases_def)
  have wa: "map (\<lambda>(n, a, w). a) (filter (\<lambda>(n, a, w). w) fl)
              = filter has_wildcard (declared_aliases cls)"
    using wildcard_aliases_filter [OF w] al by simp
  show ?thesis
  proof (cases "filter has_wildcard (declared_aliases cls) = []")
    case False
    have sub: "\<forall>a \<in> set (filter has_wildcard (declared_aliases cls)). CHR ''.'' \<in> set a"
      using assms(3) by simp
    from deepest_wildcard [OF False sub] assms(2) wa False
    show ?thesis
      by (auto simp: attachment_rule_def infer_json_path_pattern_def Let_def
               list_ex_iff list_all_iff)
  next
    case True
    have ne: "declared_aliases cls \<noteq> []"
    proof
      assume "declared_aliases cls = []"
      with al have "fl = []" by simp
      with assms(2) show False by (simp add: infer_pattern_Nil)
    qed
    from deepest_common [OF ne assms(3)] assms(2) wa True al
    show ?thesis
      by (auto simp: attachment_rule_def infer_json_path_pattern_def Let_def)
  qed
qed

lemma create_specs_entries:
  "model_specs_create_specs_and_adapters self data_models = Inr p \<Longrightarrow>
   (name, spec) \<in> set (model_specs p) \<Longrightarrow>
     (name, spec) \<in> set (model_specs self)
     \<or> (\<exists>cls \<in> set data_models. \<exists>fl.
           collect_fields (model_fields cls) = Inr fl
           \<and> infer_json_path_pattern fl = Inr (json_path_pattern spec)
           \<and> data_model spec = cls \<and> name = cls_name cls)"
proof (induction data_models arbitrary: self)
  case Nil
  then show ?case by simp
next
  case (Cons cls data_models)
  from Cons.prems(1) obtain fl pat where
    fl: "collect_fields (model_fields cls) = Inr fl"
    and pat: "infer_json_path_pattern fl = Inr pat"
    and rest: "model_specs_create_specs_and_adapters
                 (self\<lparr>model_fields_cache :=
                          AList.update (cls_name cls) fl (model_fields_cache self),
                        model_specs :=
                          AList.update (cls_name cls)
                            \<lparr>data_model = cls, json_path_pattern = pat\<rparr> (model_specs self),
                        model_adapters :=
                          AList.update (cls_name cls) (model_validate cls) (model_adapters self)\<rparr>)
                 data_models = Inr p"
    by (auto split: sum.splits)
  from Cons.IH [OF rest Cons.prems(2)]
  consider "(name, spec) \<in> set (AList.update (cls_name cls)
                \<lparr>data_model = cls, json_path_pattern = pat\<rparr> (model_specs self))"
    | "\<exists>c \<in> set data_models. \<exists>fl.
           collect_fields (model_fields c) = Inr fl
           \<and> infer_json_path_pattern fl = Inr (json_path_pattern spec)
           \<and> data_model spec = c \<and> name = cls_name c"
    by auto
  then show ?case
  proof cases
    case 1
    from alist_update_entries [OF 1] fl pat show ?thesis by auto
  next
    case 2
    then show ?thesis by auto
  qed
qed

text \<open>
  C8, amended. In \<open>JSONParser\<close>, for a model whose aliases all have at least two
  segments: if some alias contains \<open>[*]\<close>, the attachment pattern is the prefix (the
  alias without its last segment) of a wildcarded alias, with the most segments among the
  prefixes of the wildcarded aliases; otherwise it is the first \<open>n\<close> segments of the
  first alias's prefix, where \<open>n\<close> is the number of leading positions at which all
  prefixes agree (segments with the same key base and different indices compare equal),
  and the root pattern when \<open>n = 0\<close>.
\<close>

theorem attachment_pattern_rule:
  assumes "JSONParser_init data_models = Inr p"
    and "(name, spec) \<in> set (model_specs p)"
    and "\<forall>a \<in> set (declared_aliases (data_model spec)). CHR ''.'' \<in> set a"
  shows "attachment_rule (declared_aliases (data_model spec)) (json_path_pattern spec)"
proof -
  from create_specs_entries [OF assms(1) [unfolded JSONParser_init_def] assms(2)]
  obtain fl where "collect_fields (model_fields (data_model spec)) = Inr fl"
    "infer_json_path_pattern fl = Inr (json_path_pattern spec)"
    by auto
  from infer_pattern_rule [OF this assms(3)] show ?thesis .
qed

text \<open>
  C9, amended. Constructing a \<open>JSONParser\<close> raises exactly when some model has no
  fields or has a field without an alias; then there is no parser, so no spec is kept and
  no document is walked.
\<close>

theorem invalid_schema_fails_construction:
  "(\<exists>e. JSONParser_init data_models = Inl e) = list_ex invalid_schema data_models
   \<and> (\<exists>e. construct_and_parse data_models doc = Inl e) = list_ex invalid_schema data_models"
proof -
  have a: "(\<exists>e. JSONParser_init data_models = Inl e) = list_ex invalid_schema data_models"
    by (rule spec_compilation_fails_on_invalid_schema)
  have "(\<exists>e. construct_and_parse data_models doc = Inl e)
          = (\<exists>e. JSONParser_init data_models = Inl e)"
    by (auto simp: construct_and_parse_def split: sum.splits)
  with a show ?thesis by simp
qed

theorem invalid_schema_fails_construction_witness:
  "JSONParser_init [item_cls, empty_cls] = Inl ValueError_empty_sequence
   \<and> JSONParser_init [no_alias_cls] = Inl (ValueError_alias_required ''id'')
   \<and> (\<exists>e. construct_and_parse [item_cls, empty_cls] invoice_doc = Inl e)"
proof -
  have i: "list_ex invalid_schema [item_cls, empty_cls]"
    by (simp add: invalid_schema_def empty_cls_def)
  have a: "JSONParser_init [item_cls, empty_cls] = Inl ValueError_empty_sequence"
    by (simp add: JSONParser_init_def item_cls_def empty_cls_def plain_field_def
          infer_json_path_pattern_def model_specs_find_deepest_wildcard_path_def
          model_specs_find_deepest_common_path_pattern_def
          has_wildcard_def alias_parent_def split_dot_def join_dot_def count_dots_def)
  have b: "JSONParser_init [no_alias_cls] = Inl (ValueError_alias_required ''id'')"
    by (simp add: JSONParser_init_def no_alias_cls_def)
  from invalid_schema_fails_construction [of "[item_cls, empty_cls]" invoice_doc] i a b
  show ?thesis by simp
qed

text \<open>
  C9, as stated, fails for \<open>infer_model_specs\<close>, which never raises: a model without
  fields and a model whose only field has no alias both get a spec with the root pattern.
\<close>

theorem infer_model_specs_accepts_invalid_schema:
  "map path_pattern (infer_model_specs [(''empty'', empty_cls), (''no_alias'', no_alias_cls)])
     = [''root'', ''root'']"
  by code_simp

text \<open>
  C8, as stated, fails for \<open>infer_model_specs\<close>: with a field named \<open>id\<close> the pattern
  is the prefix of that field's alias, here \<open>root\<close>, although another alias of the model
  is wildcarded and the rule gives \<open>root.items[*]\<close>.
\<close>

theorem infer_model_specs_uses_primary_key_alias:
  "path_pattern (infer_model_spec sku_cls) = ''root''
   \<and> \<not> attachment_rule (declared_aliases sku_cls) (path_pattern (infer_model_spec sku_cls))"
proof -
  have a: "path_pattern (infer_model_spec sku_cls) = ''root''"
    by code_simp
  have w: "filter has_wildcard (declared_aliases sku_cls) = [''root.items[*].sku'']"
    by code_simp
  have p: "join_dot (prefix_segments ''root.items[*].sku'') = ''root.items[*]''"
    by code_simp
  show ?thesis
    unfolding a by (simp add: attachment_rule_def w p)
qed

lemma init_geo: "JSONParser_init [geo_cls] = Inr geo_parser"
  by (simp add: JSONParser_init_def geo_cls_def geo_parser_def plain_field_def
        infer_json_path_pattern_def model_specs_find_deepest_common_path_pattern_def
        has_wildcard_def alias_parent_def split_dot_def join_dot_def
        common_loop.simps same_base_def key_base_def)

theorem attachment_pattern_rule_witness:
  "attachment_rule (declared_aliases item_cls) ''root.items[*]''
   \<and> attachment_rule (declared_aliases geo_cls) ''root''"
proof -
  have e1: "(''Item'', \<lparr>data_model = item_cls, json_path_pattern = ''root.items[*]''\<rparr>)
              \<in> set (model_specs item_parser)"
    by (simp add: item_parser_def)
  have d1: "\<forall>a \<in> set (declared_aliases
              (data_model \<lparr>data_model = item_cls, json_path_pattern = ''root.items[*]''\<rparr>)).
              CHR ''.'' \<in> set a"
    by (simp add: declared_aliases_def item_cls_def plain_field_def)
  have e2: "(''Geo'', \<lparr>data_model = geo_cls, json_path_pattern = ''root''\<rparr>)
              \<in> set (model_specs geo_parser)"
    by (simp add: geo_parser_def)
  have d2: "\<forall>a \<in> set (declared_aliases
              (data_model \<lparr>data_model = geo_cls, json_path_pattern = ''root''\<rparr>)).
              CHR ''.'' \<in> set a"
    by (simp add: declared_aliases_def geo_cls_def plain_field_def)
  from attachment_pattern_rule [OF init_item e1 d1] attachment_pattern_rule [OF init_geo e2 d2]
  show ?thesis by simp
qed

section \<open>Alias resolution follows the cursor\<close>











text \<open>
  C3, as stated for every index. The unresolved text is looked up like any other path, and
  a key of the document can hold \<open>[*]\<close>: in \<open>wildcard_key_doc\<close> the root has the key
  \<open>others[*]\<close>, so \<open>root.others[*].name\<close> is a path of the index. At \<open>root.items[0]\<close> the
  alias \<open>root.others[*].name\<close> stays unresolved, since no segment of the current path binds
  \<open>others\<close>, and the lookup yields \<open>x\<close>, not the absent value: the row is emitted with
  that name, by \<open>extract_model_data\<close> and by \<open>JSONParser.parse\<close>.
\<close>

theorem unresolved_wildcard_found_in_index:
  "resolve_alias_with_wildcards ''root.others[*].name'' ''root.items[0]''
     = ''root.others[*].name''
   \<and> parsing_replace_wildcard_with_index ''root.others[*].name'' ''root.items[0]''
     = ''root.others[*].name''
   \<and> fst (walk (\<lambda>obj path idx u. u) wildcard_key_doc ''root'' (Map.empty, ()))
        ''root.others[*].name'' = Some (JStr ''x'')
   \<and> fst (extract_model_data wildcard_key_doc [others_spec]) ''root.items[*]''
     = Some [[(''id'', JNum 1), (''name'', JStr ''x'')]]
   \<and> snd (extract_model_data wildcard_key_doc [others_spec]) = []
   \<and> (case construct_and_parse [others_cls] wildcard_key_doc of
        Inr (Inr res, parser) \<Rightarrow> res ''Other'' | _ \<Rightarrow> None)
     = Some [[(''id'', JNum 1), (''name'', JStr ''x'')]]"
  by code_simp



section \<open>The ordering invariant of the walk\<close>

lemma render_Nil: "render path [] = path"
  by (simp add: render_def)

lemma render_Key: "render path (Key k # steps) = render (path @ ''.'' @ k) steps"
  by (simp add: render_def)

lemma render_Idx:
  "render path (Idx i # steps) = render (path @ ''['' @ show_nat i @ '']'') steps"
  by (simp add: render_def)

lemma node_at_container: "node_at v (s # steps) = Some w \<Longrightarrow> is_container v"
  by (cases v; cases s) (auto split: option.splits)

lemma scalar_presence:
  assumes "\<not> is_container obj"
  shows "dom idx \<subseteq> dom (idx(path \<mapsto> obj))
   \<and> (\<forall>steps v. node_at obj steps = Some v \<longrightarrow> render path steps \<in> dom (idx(path \<mapsto> obj)))"
proof (intro conjI allI impI)
  show "dom idx \<subseteq> dom (idx(path \<mapsto> obj))" by auto
next
  fix steps v
  assume n: "node_at obj steps = Some v"
  have "steps = []"
  proof (cases steps)
    case (Cons s rest)
    with n assms node_at_container show ?thesis by blast
  qed simp
  then show "render path steps \<in> dom (idx(path \<mapsto> obj))"
    by (simp add: render_Nil)
qed

lemma index_presence:
  "dom idx \<subseteq> dom (index_path obj path idx)
   \<and> (\<forall>steps v. node_at obj steps = Some v \<longrightarrow> render path steps \<in> dom (index_path obj path idx))"
  "dom idx \<subseteq> dom (index_items kvs path idx)
   \<and> (\<forall>k v steps w. (k, v) \<in> set kvs \<and> node_at v steps = Some w
         \<longrightarrow> render path (Key k # steps) \<in> dom (index_items kvs path idx))"
  "dom idx \<subseteq> dom (index_elems xs i path idx)
   \<and> (\<forall>j steps w. j < length xs \<and> node_at (xs ! j) steps = Some w
         \<longrightarrow> render path (Idx (i + j) # steps) \<in> dom (index_elems xs i path idx))"
proof (induction obj path idx and kvs path idx and xs i path idx
       rule: index_path_index_items_index_elems.induct)
  case (1 kvs path idx)
  define idx1 where "idx1 = idx(path \<mapsto> JDict kvs)"
  have eq: "index_path (JDict kvs) path idx = index_items kvs path idx1"
    by (simp add: idx1_def)
  have i1: "dom idx \<subseteq> dom idx1" "path \<in> dom idx1" by (auto simp: idx1_def)
  from 1 [folded idx1_def] have mono: "dom idx1 \<subseteq> dom (index_items kvs path idx1)"
    and sub: "\<And>k v steps w. (k, v) \<in> set kvs \<Longrightarrow> node_at v steps = Some w
         \<Longrightarrow> render path (Key k # steps) \<in> dom (index_items kvs path idx1)"
    by blast+
  have "dom idx \<subseteq> dom (index_path (JDict kvs) path idx)"
    unfolding eq using mono i1 by blast
  moreover have "render path steps \<in> dom (index_path (JDict kvs) path idx)"
    if n: "node_at (JDict kvs) steps = Some v" for steps v
  proof (cases steps)
    case Nil
    with mono i1 show ?thesis unfolding eq render_def by auto
  next
    case (Cons s rest)
    with n obtain k c where s: "s = Key k" and c: "map_of kvs k = Some c"
      and r: "node_at c rest = Some v"
      by (cases s) (auto split: option.splits)
    from c have "(k, c) \<in> set kvs" by (rule map_of_SomeD)
    from sub [OF this r] Cons s show ?thesis unfolding eq by simp
  qed
  ultimately show ?case by blast
next
  case (2 xs path idx)
  define idx1 where "idx1 = idx(path \<mapsto> JList xs)"
  have eq: "index_path (JList xs) path idx = index_elems xs 0 path idx1"
    by (simp add: idx1_def)
  have i1: "dom idx \<subseteq> dom idx1" "path \<in> dom idx1" by (auto simp: idx1_def)
  from 2 [folded idx1_def] have mono: "dom idx1 \<subseteq> dom (index_elems xs 0 path idx1)"
    and sub: "\<And>j steps w. j < length xs \<Longrightarrow> node_at (xs ! j) steps = Some w
         \<Longrightarrow> render path (Idx (0 + j) # steps) \<in> dom (index_elems xs 0 path idx1)"
    by blast+
  have "dom idx \<subseteq> dom (index_path (JList xs) path idx)"
    unfolding eq using mono i1 by blast
  moreover have "render path steps \<in> dom (index_path (JList xs) path idx)"
    if n: "node_at (JList xs) steps = Some v" for steps v
  proof (cases steps)
    case Nil
    with mono i1 show ?thesis unfolding eq render_def by auto
  next
    case (Cons s rest)
    with n obtain j where s: "s = Idx j" and j: "j < length xs"
      and r: "node_at (xs ! j) rest = Some v"
      by (cases s) (auto split: option.splits if_splits)
    from sub [OF j r] Cons s show ?thesis unfolding eq by simp
  qed
  ultimately show ?case by blast
next
  case (3 path idx)
  show ?case using scalar_presence [of "JNull" idx path] by (simp add: fun_upd_def)
next
  case (4 b path idx)
  show ?case using scalar_presence [of "JBool b" idx path] by (simp add: fun_upd_def)
next
  case (5 n path idx)
  show ?case using scalar_presence [of "JNum n" idx path] by (simp add: fun_upd_def)
next
  case (6 s path idx)
  show ?case using scalar_presence [of "JStr s" idx path] by (simp add: fun_upd_def)
next
  case (7 path idx)
  show ?case by simp
next
  case (8 key v kvs path idx)
  define fp where "fp = path @ ''.'' @ key"
  define idx1 where "idx1 = idx(fp \<mapsto> v)"
  define idx2 where "idx2 = (if is_container v then index_path v fp idx1 else idx1)"
  have eq: "index_items ((key, v) # kvs) path idx = index_items kvs path idx2"
    by (simp add: Let_def fp_def idx1_def idx2_def)
  have i1: "dom idx \<subseteq> dom idx1" "fp \<in> dom idx1" by (auto simp: idx1_def)
  from "8.IH"(2) [OF fp_def idx1_def idx2_def]
  have mono2: "dom idx2 \<subseteq> dom (index_items kvs path idx2)"
    and sub2: "\<And>k v' steps w. (k, v') \<in> set kvs \<Longrightarrow> node_at v' steps = Some w
         \<Longrightarrow> render path (Key k # steps) \<in> dom (index_items kvs path idx2)"
    by blast+
  have mono1: "dom idx1 \<subseteq> dom idx2"
  proof (cases "is_container v")
    case True
    from "8.IH"(1) [OF fp_def idx1_def True] True show ?thesis by (simp add: idx2_def)
  next
    case False
    then show ?thesis by (simp add: idx2_def)
  qed
  have "dom idx \<subseteq> dom (index_items ((key, v) # kvs) path idx)"
    unfolding eq using i1 mono1 mono2 by blast
  moreover have "render path (Key k # steps) \<in> dom (index_items ((key, v) # kvs) path idx)"
    if m: "(k, v') \<in> set ((key, v) # kvs)" and n: "node_at v' steps = Some w"
    for k v' steps w
  proof (cases "(k, v') = (key, v)")
    case False
    with m have "(k, v') \<in> set kvs" by auto
    from sub2 [OF this n] show ?thesis unfolding eq .
  next
    case True
    have "render fp steps \<in> dom idx2"
    proof (cases steps)
      case Nil
      with mono1 i1 show ?thesis unfolding render_def by auto
    next
      case (Cons s rest)
      with n True have c: "is_container v" using node_at_container by blast
      from "8.IH"(1) [OF fp_def idx1_def c] n True c show ?thesis
        by (simp add: idx2_def)
    qed
    moreover have "render path (Key k # steps) = render fp steps"
      using True by (simp add: render_Key fp_def)
    ultimately show ?thesis unfolding eq using mono2 by auto
  qed
  ultimately show ?case by blast
next
  case (9 i path idx)
  show ?case by simp
next
  case (10 item items i path idx)
  define ip where "ip = path @ ''['' @ show_nat i @ '']''"
  define idx1 where "idx1 = idx(ip \<mapsto> item)"
  define idx2 where "idx2 = (if is_container item then index_path item ip idx1 else idx1)"
  have eq: "index_elems (item # items) i path idx = index_elems items (i + 1) path idx2"
    by (simp add: Let_def ip_def idx1_def idx2_def)
  have i1: "dom idx \<subseteq> dom idx1" "ip \<in> dom idx1" by (auto simp: idx1_def)
  from "10.IH"(2) [OF ip_def idx1_def idx2_def]
  have mono2: "dom idx2 \<subseteq> dom (index_elems items (i + 1) path idx2)"
    and sub2: "\<And>j steps w. j < length items \<Longrightarrow> node_at (items ! j) steps = Some w
         \<Longrightarrow> render path (Idx (i + 1 + j) # steps)
               \<in> dom (index_elems items (i + 1) path idx2)"
    by blast+
  have mono1: "dom idx1 \<subseteq> dom idx2"
  proof (cases "is_container item")
    case True
    from "10.IH"(1) [OF ip_def idx1_def True] True show ?thesis by (simp add: idx2_def)
  next
    case False
    then show ?thesis by (simp add: idx2_def)
  qed
  have "dom idx \<subseteq> dom (index_elems (item # items) i path idx)"
    unfolding eq using i1 mono1 mono2 by blast
  moreover have "render path (Idx (i + j) # steps)
                   \<in> dom (index_elems (item # items) i path idx)"
    if j: "j < length (item # items)" and n: "node_at ((item # items) ! j) steps = Some w"
    for j steps w
  proof (cases j)
    case (Suc j')
    with j n have "j' < length items" "node_at (items ! j') steps = Some w" by simp_all
    from sub2 [OF this] Suc show ?thesis unfolding eq by simp
  next
    case 0
    have "render ip steps \<in> dom idx2"
    proof (cases steps)
      case Nil
      with mono1 i1 show ?thesis unfolding render_def by auto
    next
      case (Cons s rest)
      with n 0 have c: "is_container item" using node_at_container by fastforce
      from "10.IH"(1) [OF ip_def idx1_def c] n 0 c show ?thesis
        by (simp add: idx2_def)
    qed
    moreover have "render path (Idx (i + j) # steps) = render ip steps"
      using 0 by (simp add: render_Idx ip_def)
    ultimately show ?thesis unfolding eq using mono2 by auto
  qed
  ultimately show ?case by blast
qed

lemma event_lift_key:
  "event_ok (path @ ''.'' @ k) v [] ev \<Longrightarrow> event_ok path v [Key k] ev"
  by (auto simp: event_ok_def render_Key split: prod.splits)

lemma event_lift_idx:
  "event_ok (path @ ''['' @ show_nat j @ '']'') v [] ev \<Longrightarrow> event_ok path v [Idx j] ev"
  by (auto simp: event_ok_def render_Idx split: prod.splits)

lemma event_to_dict:
  assumes "distinct (map fst kvs)" and "(k, v) \<in> set kvs"
    and "event_ok path v [Key k] ev" and "path \<in> dom (snd (snd ev))"
  shows "event_ok path (JDict kvs) [] ev"
proof -
  obtain ob Q i where ev: "ev = (ob, Q, i)" by (cases ev) auto
  from assms(3) ev obtain steps where st: "Q = render path ([Key k] @ steps)"
    "node_at v steps = Some ob" "\<exists>kvs. ob = JDict kvs"
    "\<forall>n \<le> length steps. render path ([Key k] @ take n steps) \<in> dom i"
    "subtree_indexed ob Q i"
    by (auto simp: event_ok_def)
  from assms(1,2) have m: "map_of kvs k = Some v" by (rule map_of_is_SomeI)
  have pre: "render path ([] @ take n (Key k # steps)) \<in> dom i"
    if "n \<le> length (Key k # steps)" for n
  proof (cases n)
    case 0
    with assms(4) ev show ?thesis by (simp add: render_Nil)
  next
    case (Suc m)
    with that st(4) show ?thesis by simp
  qed
  have "Q = render path ([] @ (Key k # steps))" using st(1) by simp
  moreover have "node_at (JDict kvs) (Key k # steps) = Some ob" using m st(2) by simp
  ultimately show ?thesis
    unfolding event_ok_def ev using st(3,5) pre by blast
qed

lemma event_to_list:
  assumes "j < length xs"
    and "event_ok path (xs ! j) [Idx j] ev" and "path \<in> dom (snd (snd ev))"
  shows "event_ok path (JList xs) [] ev"
proof -
  obtain ob Q i where ev: "ev = (ob, Q, i)" by (cases ev) auto
  from assms(2) ev obtain steps where st: "Q = render path ([Idx j] @ steps)"
    "node_at (xs ! j) steps = Some ob" "\<exists>kvs. ob = JDict kvs"
    "\<forall>n \<le> length steps. render path ([Idx j] @ take n steps) \<in> dom i"
    "subtree_indexed ob Q i"
    by (auto simp: event_ok_def)
  have pre: "render path ([] @ take n (Idx j # steps)) \<in> dom i"
    if "n \<le> length (Idx j # steps)" for n
  proof (cases n)
    case 0
    with assms(3) ev show ?thesis by (simp add: render_Nil)
  next
    case (Suc m)
    with that st(4) show ?thesis by simp
  qed
  have "Q = render path ([] @ (Idx j # steps))" using st(1) by simp
  moreover have "node_at (JList xs) (Idx j # steps) = Some ob" using assms(1) st(2) by simp
  ultimately show ?thesis
    unfolding event_ok_def ev using st(3,5) pre by blast
qed

lemma events_ok:
  "keys_ok distinct obj \<longrightarrow> (\<forall>ev \<in> set (walk_events obj path idx).
      dom idx \<subseteq> dom (snd (snd ev)) \<and> event_ok path obj [] ev)"
  "list_all (keys_ok distinct) (map snd kvs) \<longrightarrow> (\<forall>ev \<in> set (items_events kvs path idx).
      dom idx \<subseteq> dom (snd (snd ev)) \<and> (\<exists>k v. (k, v) \<in> set kvs \<and> event_ok path v [Key k] ev))"
  "list_all (keys_ok distinct) xs \<longrightarrow> (\<forall>ev \<in> set (elems_events xs i path idx).
      dom idx \<subseteq> dom (snd (snd ev))
      \<and> (\<exists>j < length xs. event_ok path (xs ! j) [Idx (i + j)] ev))"
proof (induction obj path idx and kvs path idx and xs i path idx
       rule: walk_events_items_events_elems_events.induct)
  case (1 kvs path idx)
  define idx1 where "idx1 = idx(path \<mapsto> JDict kvs)"
  have evs: "walk_events (JDict kvs) path idx
               = items_events kvs path idx1 @ [(JDict kvs, path, index_items kvs path idx1)]"
    by (simp add: idx1_def)
  have i1: "dom idx \<subseteq> dom idx1" "path \<in> dom idx1" by (auto simp: idx1_def)
  show ?case
  proof (intro impI ballI)
    fix ev
    assume ok: "keys_ok distinct (JDict kvs)" and ev: "ev \<in> set (walk_events (JDict kvs) path idx)"
    from ok have d: "distinct (map fst kvs)" and oks: "list_all (keys_ok distinct) (map snd kvs)"
      by simp_all
    from ev evs consider "ev \<in> set (items_events kvs path idx1)"
      | "ev = (JDict kvs, path, index_items kvs path idx1)"
      by auto
    then show "dom idx \<subseteq> dom (snd (snd ev)) \<and> event_ok path (JDict kvs) [] ev"
    proof cases
      case 1
      with "1.IH" [folded idx1_def] oks
      obtain k v where m: "dom idx1 \<subseteq> dom (snd (snd ev))" "(k, v) \<in> set kvs"
        "event_ok path v [Key k] ev"
        by blast
      from m(1) i1 have p: "path \<in> dom (snd (snd ev))" "dom idx \<subseteq> dom (snd (snd ev))"
        by blast+
      from event_to_dict [OF d m(2) m(3) p(1)] p(2) show ?thesis by simp
    next
      case 2
      note pr = index_presence(1) [of idx "JDict kvs" path]
      have ip: "index_path (JDict kvs) path idx = index_items kvs path idx1"
        by (simp add: idx1_def)
      have mono: "dom idx1 \<subseteq> dom (index_items kvs path idx1)"
        using index_presence(2) by blast
      have "subtree_indexed (JDict kvs) path (index_items kvs path idx1)"
        using pr unfolding ip subtree_indexed_def by blast
      moreover have "path \<in> dom (index_items kvs path idx1)" using mono i1 by blast
      ultimately have "event_ok path (JDict kvs) [] ev"
        unfolding event_ok_def 2 by (auto simp: render_Nil intro!: exI [of _ "[]"])
      moreover have "dom idx \<subseteq> dom (snd (snd ev))" using 2 mono i1 by auto
      ultimately show ?thesis by simp
    qed
  qed
next
  case (2 xs path idx)
  define idx1 where "idx1 = idx(path \<mapsto> JList xs)"
  have evs: "walk_events (JList xs) path idx = elems_events xs 0 path idx1"
    by (simp add: idx1_def)
  have i1: "dom idx \<subseteq> dom idx1" "path \<in> dom idx1" by (auto simp: idx1_def)
  show ?case
  proof (intro impI ballI)
    fix ev
    assume ok: "keys_ok distinct (JList xs)" and ev: "ev \<in> set (walk_events (JList xs) path idx)"
    from ok have oks: "list_all (keys_ok distinct) xs" by simp
    from ev evs have "ev \<in> set (elems_events xs 0 path idx1)" by simp
    with "2.IH" [folded idx1_def] oks
    obtain j where m: "dom idx1 \<subseteq> dom (snd (snd ev))" "j < length xs"
      "event_ok path (xs ! j) [Idx (0 + j)] ev"
      by blast
    from m(1) i1 have p: "path \<in> dom (snd (snd ev))" "dom idx \<subseteq> dom (snd (snd ev))"
      by blast+
    from m(3) have "event_ok path (xs ! j) [Idx j] ev" by simp
    from event_to_list [OF m(2) this p(1)] p(2)
    show "dom idx \<subseteq> dom (snd (snd ev)) \<and> event_ok path (JList xs) [] ev" by simp
  qed
next
  case (8 key v kvs path idx)
  define fp where "fp = path @ ''.'' @ key"
  define idx1 where "idx1 = idx(fp \<mapsto> v)"
  have i1: "dom idx \<subseteq> dom idx1" by (auto simp: idx1_def)
  show ?case
  proof (intro impI ballI)
    fix ev
    assume ok: "list_all (keys_ok distinct) (map snd ((key, v) # kvs))"
      and ev: "ev \<in> set (items_events ((key, v) # kvs) path idx)"
    from ok have okv: "keys_ok distinct v" and oks: "list_all (keys_ok distinct) (map snd kvs)"
      by simp_all
    show "dom idx \<subseteq> dom (snd (snd ev))
          \<and> (\<exists>k v'. (k, v') \<in> set ((key, v) # kvs) \<and> event_ok path v' [Key k] ev)"
    proof (cases "is_container v")
      case False
      with ev have "ev \<in> set (items_events kvs path idx1)"
        by (simp add: Let_def fp_def idx1_def)
      with "8.IH"(3) [OF fp_def idx1_def False] oks
      obtain k v' where "dom idx1 \<subseteq> dom (snd (snd ev))" "(k, v') \<in> set kvs"
        "event_ok path v' [Key k] ev"
        by blast
      then have "dom idx \<subseteq> dom (snd (snd ev))" "(k, v') \<in> set ((key, v) # kvs)"
        "event_ok path v' [Key k] ev"
        using i1 by auto
      then show ?thesis by blast
    next
      case True
      with ev consider "ev \<in> set (walk_events v fp idx1)"
        | "ev \<in> set (items_events kvs path (index_path v fp idx1))"
        by (auto simp: Let_def fp_def idx1_def)
      then show ?thesis
      proof cases
        case 1
        with "8.IH"(1) [OF fp_def idx1_def True] okv
        have "dom idx1 \<subseteq> dom (snd (snd ev))" "event_ok fp v [] ev"
          by blast+
        with i1 event_lift_key [of path key v ev]
        have "dom idx \<subseteq> dom (snd (snd ev))" "event_ok path v [Key key] ev"
          unfolding fp_def by blast+
        then show ?thesis by auto
      next
        case 2
        with "8.IH"(2) [OF fp_def idx1_def True] oks
        obtain k v' where m: "dom (index_path v fp idx1) \<subseteq> dom (snd (snd ev))"
          "(k, v') \<in> set kvs" "event_ok path v' [Key k] ev"
          by blast
        have "dom idx1 \<subseteq> dom (index_path v fp idx1)" using index_presence(1) by blast
        with m(1) i1 have "dom idx \<subseteq> dom (snd (snd ev))" by blast
        moreover from m(2) have "(k, v') \<in> set ((key, v) # kvs)" by simp
        ultimately show ?thesis using m(3) by blast
      qed
    qed
  qed
next
  case (10 item items i path idx)
  define ip where "ip = path @ ''['' @ show_nat i @ '']''"
  define idx1 where "idx1 = idx(ip \<mapsto> item)"
  have i1: "dom idx \<subseteq> dom idx1" by (auto simp: idx1_def)
  show ?case
  proof (intro impI ballI)
    fix ev
    assume ok: "list_all (keys_ok distinct) (item # items)"
      and ev: "ev \<in> set (elems_events (item # items) i path idx)"
    from ok have okv: "keys_ok distinct item" and oks: "list_all (keys_ok distinct) items"
      by simp_all
    have shift: "\<exists>j < length (item # items). event_ok path ((item # items) ! j) [Idx (i + j)] ev"
      if "j' < length items" "event_ok path (items ! j') [Idx (i + 1 + j')] ev" for j'
      using that by (intro exI [of _ "Suc j'"]) simp
    show "dom idx \<subseteq> dom (snd (snd ev))
          \<and> (\<exists>j < length (item # items). event_ok path ((item # items) ! j) [Idx (i + j)] ev)"
    proof (cases "is_container item")
      case False
      with ev have "ev \<in> set (elems_events items (i + 1) path idx1)"
        by (simp add: Let_def ip_def idx1_def)
      with "10.IH"(3) [OF ip_def idx1_def False] oks
      obtain j' where "dom idx1 \<subseteq> dom (snd (snd ev))" "j' < length items"
        "event_ok path (items ! j') [Idx (i + 1 + j')] ev"
        by blast
      with i1 shift show ?thesis by blast
    next
      case True
      with ev consider "ev \<in> set (walk_events item ip idx1)"
        | "ev \<in> set (elems_events items (i + 1) path (index_path item ip idx1))"
        by (auto simp: Let_def ip_def idx1_def)
      then show ?thesis
      proof cases
        case 1
        with "10.IH"(1) [OF ip_def idx1_def True] okv
        have "dom idx1 \<subseteq> dom (snd (snd ev))" "event_ok ip item [] ev"
          by blast+
        with i1 event_lift_idx [of path i item ev]
        have "dom idx \<subseteq> dom (snd (snd ev))" "event_ok path item [Idx i] ev"
          unfolding ip_def by blast+
        then have "dom idx \<subseteq> dom (snd (snd ev))"
          "event_ok path ((item # items) ! 0) [Idx (i + 0)] ev"
          by simp_all
        then show ?thesis by (intro conjI exI [of _ 0]) simp_all
      next
        case 2
        with "10.IH"(2) [OF ip_def idx1_def True] oks
        obtain j' where m: "dom (index_path item ip idx1) \<subseteq> dom (snd (snd ev))"
          "j' < length items" "event_ok path (items ! j') [Idx (i + 1 + j')] ev"
          by blast
        have "dom idx1 \<subseteq> dom (index_path item ip idx1)" using index_presence(1) by blast
        with m i1 shift show ?thesis by blast
      qed
    qed
  qed
qed simp_all

text \<open>
  C5. The walk runs its extraction exactly on the extraction points \<open>walk_events\<close>, and
  at each of them the node is a mapping at some position of the document, its path is the
  path of that position, and the index already holds the path of every position on the way
  from the root to it (itself included) and of every position below it. A document is a
  Python value, so the keys of each of its mappings are distinct.
\<close>

theorem extraction_sees_ancestors_and_subtree:
  assumes "distinct_keys doc"
    and "(obj, path, idx) \<in> set (walk_events doc ''root'' idx0)"
  shows "walk ext doc ''root'' (idx0, u)
           = (index_path doc ''root'' idx0,
              run_extraction ext u (walk_events doc ''root'' idx0))
       \<and> (\<exists>steps. path = render ''root'' steps \<and> node_at doc steps = Some obj
              \<and> (\<exists>kvs. obj = JDict kvs)
              \<and> ancestors_indexed ''root'' steps idx
              \<and> subtree_indexed obj path idx)"
proof -
  from events_ok(1) [of doc "''root''" idx0] assms
  have "event_ok ''root'' doc [] (obj, path, idx)"
    unfolding distinct_keys_def by blast
  then have "\<exists>steps. path = render ''root'' steps \<and> node_at doc steps = Some obj
              \<and> (\<exists>kvs. obj = JDict kvs)
              \<and> ancestors_indexed ''root'' steps idx
              \<and> subtree_indexed obj path idx"
    by (simp add: event_ok_def ancestors_indexed_def)
  then show ?thesis by (simp add: walk_index_events_aux(1))
qed

theorem extraction_sees_ancestors_and_subtree_witness:
  "\<exists>steps. ''root.items[0]'' = render ''root'' steps
      \<and> node_at invoice_doc steps = Some (JDict [(''id'', JStr ''A'')])
      \<and> ancestors_indexed ''root'' steps
           (snd (snd (walk_events invoice_doc ''root'' Map.empty ! 0)))
      \<and> subtree_indexed (JDict [(''id'', JStr ''A'')]) ''root.items[0]''
           (snd (snd (walk_events invoice_doc ''root'' Map.empty ! 0)))"
proof -
  define ev where "ev = walk_events invoice_doc ''root'' Map.empty ! 0"
  have len: "length (walk_events invoice_doc ''root'' Map.empty) = 3"
    by code_simp
  then have mem: "ev \<in> set (walk_events invoice_doc ''root'' Map.empty)"
    unfolding ev_def by (intro nth_mem) simp
  have o: "fst ev = JDict [(''id'', JStr ''A'')]"
    unfolding ev_def by code_simp
  have p: "fst (snd ev) = ''root.items[0]''"
    unfolding ev_def by code_simp
  have d: "distinct_keys invoice_doc"
    by code_simp
  from mem have "(fst ev, fst (snd ev), snd (snd ev))
                   \<in> set (walk_events invoice_doc ''root'' Map.empty)"
    by simp
  from extraction_sees_ancestors_and_subtree [OF d this, THEN conjunct2, unfolded o p]
  show ?thesis unfolding ev_def by blast
qed

section \<open>The alias round trip\<close>























section \<open>The matcher and the normal form of a path\<close>

lemma special_simps:
  "CHR ''['' \<in> set special_chars" "CHR ''*'' \<in> set special_chars"
  "CHR '']'' \<in> set special_chars" "backslash \<in> set special_chars"
  "CHR ''d'' \<notin> set special_chars"
  by (simp_all add: special_chars_def backslash_def)

lemma backslash_neq:
  "backslash \<noteq> CHR ''[''" "backslash \<noteq> CHR ''*''" "backslash \<noteq> CHR '']''"
  "backslash \<noteq> CHR ''d''" "backslash \<noteq> CHR ''+''"
  "CHR ''['' \<noteq> backslash" "CHR ''*'' \<noteq> backslash" "CHR '']'' \<noteq> backslash"
  by (simp_all add: backslash_def)

lemma re_escape_hd:
  "re_escape s = x # xs \<Longrightarrow> x = backslash \<or> x \<notin> set special_chars"
  by (cases s) (auto split: if_splits)

lemma re_escape_hd_special:
  assumes "re_escape s = backslash # e # xs" and "e \<in> set special_chars"
  shows "\<exists>t. s = e # t \<and> xs = re_escape t"
proof (cases s)
  case Nil
  with assms show ?thesis by simp
next
  case (Cons c t)
  show ?thesis
  proof (cases "c \<in> set special_chars")
    case True
    with assms Cons show ?thesis by simp
  next
    case False
    with assms Cons have "c = backslash" by simp
    with False show ?thesis by (simp add: special_simps)
  qed
qed

lemma replace_escaped_special:
  assumes "c \<in> set special_chars"
    and "\<not> (c = CHR ''['' \<and> prefix ''*]'' cs)"
  shows "str_replace escaped_wildcard digits_wildcard (backslash # c # re_escape cs)
           = backslash # c # str_replace escaped_wildcard digits_wildcard (re_escape cs)"
proof -
  have n0: "\<not> prefix escaped_wildcard (backslash # c # re_escape cs)"
  proof
    assume p: "prefix escaped_wildcard (backslash # c # re_escape cs)"
    then obtain z where z: "backslash # c # re_escape cs = escaped_wildcard @ z"
      by (auto simp: prefix_def)
    then have c: "c = CHR ''[''" and r: "re_escape cs = backslash # CHR ''*'' # backslash # CHR '']'' # z"
      by (simp_all add: escaped_wildcard_def)
    from re_escape_hd_special [OF r special_simps(2)]
    obtain t where t: "cs = CHR ''*'' # t" "backslash # CHR '']'' # z = re_escape t" by auto
    from re_escape_hd_special [OF t(2) [symmetric] special_simps(3)]
    obtain t' where "t = CHR '']'' # t'" by auto
    with t(1) c assms(2) show False by simp
  qed
  have n1: "\<not> prefix escaped_wildcard (c # re_escape cs)"
  proof
    assume "prefix escaped_wildcard (c # re_escape cs)"
    then obtain z where "c # re_escape cs = escaped_wildcard @ z"
      by (auto simp: prefix_def)
    then have "re_escape cs = CHR ''['' # backslash # CHR ''*'' # backslash # CHR '']'' # z"
      by (simp add: escaped_wildcard_def)
    from re_escape_hd [OF this] show False by (simp add: special_simps backslash_neq)
  qed
  from n0 n1 show ?thesis by simp
qed

lemma replace_escaped_plain:
  assumes "c \<notin> set special_chars"
  shows "str_replace escaped_wildcard digits_wildcard (c # re_escape cs)
           = c # str_replace escaped_wildcard digits_wildcard (re_escape cs)"
proof -
  from assms have "c \<noteq> backslash" using special_simps(4) by auto
  then have "\<not> prefix escaped_wildcard (c # re_escape cs)"
    by (auto simp: escaped_wildcard_def)
  then show ?thesis by simp
qed

lemma replace_escaped_wildcard:
  "str_replace escaped_wildcard digits_wildcard (re_escape (CHR ''['' # CHR ''*'' # CHR '']'' # r))
     = digits_wildcard @ str_replace escaped_wildcard digits_wildcard (re_escape r)"
  by (simp add: special_simps escaped_wildcard_def)

lemma compile_step:
  "re_compile (str_replace escaped_wildcard digits_wildcard (re_escape (c # cs)))
     = (if prefix ''[*]'' (c # cs)
        then Lit CHR ''['' # DigitPlus # Lit CHR '']''
               # re_compile (str_replace escaped_wildcard digits_wildcard (re_escape (drop 2 cs)))
        else Lit c # re_compile (str_replace escaped_wildcard digits_wildcard (re_escape cs)))"
proof (cases "prefix ''[*]'' (c # cs)")
  case True
  then obtain r where r: "c # cs = CHR ''['' # CHR ''*'' # CHR '']'' # r"
    by (auto simp: prefix_def)
  then have d: "drop 2 cs = r" by auto
  have "re_compile (digits_wildcard @ z) = Lit CHR ''['' # DigitPlus # Lit CHR '']'' # re_compile z"
    for z
    by (simp add: digits_wildcard_def backslash_neq)
  with True show ?thesis
    unfolding r replace_escaped_wildcard using d r by simp
next
  case False
  then have nw: "\<not> (c = CHR ''['' \<and> prefix ''*]'' cs)" by auto
  show ?thesis
  proof (cases "c \<in> set special_chars")
    case True
    then have d: "c \<noteq> CHR ''d''" using special_simps(5) by auto
    from True have "re_escape (c # cs) = backslash # c # re_escape cs" by simp
    with replace_escaped_special [OF True nw]
    have "str_replace escaped_wildcard digits_wildcard (re_escape (c # cs))
            = backslash # c # str_replace escaped_wildcard digits_wildcard (re_escape cs)"
      by (simp only:)
    then have "re_compile (str_replace escaped_wildcard digits_wildcard (re_escape (c # cs)))
            = re_compile (backslash # c # str_replace escaped_wildcard digits_wildcard (re_escape cs))"
      by (rule arg_cong)
    also have "\<dots> = Lit c # re_compile (str_replace escaped_wildcard digits_wildcard (re_escape cs))"
      using d by simp
    finally have "re_compile (str_replace escaped_wildcard digits_wildcard (re_escape (c # cs)))
            = Lit c # re_compile (str_replace escaped_wildcard digits_wildcard (re_escape cs))" .
    with False show ?thesis by (simp only: if_False)
  next
    case s: False
    then have b: "c \<noteq> backslash" using special_simps(4) by auto
    from s have "re_escape (c # cs) = c # re_escape cs" by simp
    with replace_escaped_plain [OF s]
    have "str_replace escaped_wildcard digits_wildcard (re_escape (c # cs))
            = c # str_replace escaped_wildcard digits_wildcard (re_escape cs)"
      by (simp only:)
    then have "re_compile (str_replace escaped_wildcard digits_wildcard (re_escape (c # cs)))
            = re_compile (c # str_replace escaped_wildcard digits_wildcard (re_escape cs))"
      by (rule arg_cong)
    also have "\<dots> = Lit c # re_compile (str_replace escaped_wildcard digits_wildcard (re_escape cs))"
      using b by simp
    finally have "re_compile (str_replace escaped_wildcard digits_wildcard (re_escape (c # cs)))
            = Lit c # re_compile (str_replace escaped_wildcard digits_wildcard (re_escape cs))" .
    with False show ?thesis by (simp only: if_False)
  qed
qed

lemma compile_wildcard:
  "re_compile (str_replace escaped_wildcard digits_wildcard
                 (re_escape (CHR ''['' # CHR ''*'' # CHR '']'' # r)))
     = Lit CHR ''['' # DigitPlus # Lit CHR '']''
         # re_compile (str_replace escaped_wildcard digits_wildcard (re_escape r))"
proof -
  have p: "prefix ''[*]'' (CHR ''['' # CHR ''*'' # CHR '']'' # r)" by simp
  have d: "drop 2 (CHR ''*'' # CHR '']'' # r) = r" by simp
  show ?thesis by (subst compile_step) (simp only: p d if_True)
qed

lemma compile_literal:
  assumes "\<not> prefix ''[*]'' (c # cs)"
  shows "re_compile (str_replace escaped_wildcard digits_wildcard (re_escape (c # cs)))
           = Lit c # re_compile (str_replace escaped_wildcard digits_wildcard (re_escape cs))"
  by (subst compile_step) (simp only: assms if_False)

lemma compile_Nil:
  "re_compile (str_replace escaped_wildcard digits_wildcard (re_escape [])) = []"
  by simp

lemma pattern_items_wildcard:
  "pattern_items (CHR ''['' # CHR ''*'' # CHR '']'' # r)
     = Lit CHR ''['' # DigitPlus # Lit CHR '']'' # pattern_items r"
  by simp

lemma pattern_items_literal:
  "\<not> prefix ''[*]'' (c # cs) \<Longrightarrow> pattern_items (c # cs) = Lit c # pattern_items cs"
proof (cases cs)
  case Nil
  then show ?thesis by simp
next
  case (Cons b t)
  assume n: "\<not> prefix ''[*]'' (c # cs)"
  show ?thesis
  proof (cases t)
    case Nil
    with Cons show ?thesis by simp
  next
    case (Cons d u)
    with \<open>cs = b # t\<close> n show ?thesis by auto
  qed
qed

lemma compile_pattern:
  "re_compile (str_replace escaped_wildcard digits_wildcard (re_escape pattern))
     = pattern_items pattern"
proof (induction pattern rule: length_induct)
  case (1 pattern)
  note IH = "1.IH" [rule_format]
  show ?case
  proof (cases pattern)
    case Nil
    show ?thesis unfolding Nil compile_Nil by simp
  next
    case (Cons c cs)
    show ?thesis
    proof (cases "prefix ''[*]'' (c # cs)")
      case True
      then obtain r where r: "c # cs = CHR ''['' # CHR ''*'' # CHR '']'' # r"
        by (auto simp: prefix_def)
      with Cons have "length r < length pattern" by simp
      from IH [OF this] show ?thesis
        unfolding Cons r compile_wildcard pattern_items_wildcard by (simp only:)
    next
      case False
      from Cons have "length cs < length pattern" by simp
      from IH [OF this] show ?thesis
        unfolding Cons compile_literal [OF False] pattern_items_literal [OF False]
        by (simp only:)
    qed
  qed
qed

lemma bracket_not_digit:
  "\<not> is_digit CHR '']''" "\<not> is_digit CHR ''[''" "\<not> is_digit CHR ''*''"
  by (simp_all add: is_digit_def)

lemma index_at_iff:
  "index_at s = Some (ds, rest)
     \<longleftrightarrow> s = CHR ''['' # ds @ CHR '']'' # rest \<and> ds \<noteq> [] \<and> list_all is_digit ds"
proof
  assume a: "index_at s = Some (ds, rest)"
  then obtain t where s: "s = CHR ''['' # t"
    by (cases s) (auto simp: index_at_def split: if_splits)
  from a s have d: "dropWhile is_digit t = CHR '']'' # rest" and t: "takeWhile is_digit t = ds"
    and n: "ds \<noteq> []"
    by (auto simp: index_at_def split: if_splits list.splits)
  have "t = takeWhile is_digit t @ dropWhile is_digit t" by simp
  then have "t = ds @ CHR '']'' # rest" unfolding d t .
  moreover have "list_all is_digit ds"
    unfolding t [symmetric] list_all_iff by (auto dest: set_takeWhileD)
  ultimately show "s = CHR ''['' # ds @ CHR '']'' # rest \<and> ds \<noteq> [] \<and> list_all is_digit ds"
    using s n by simp
next
  assume a: "s = CHR ''['' # ds @ CHR '']'' # rest \<and> ds \<noteq> [] \<and> list_all is_digit ds"
  then have all: "\<And>x. x \<in> set ds \<Longrightarrow> is_digit x" by (simp add: list_all_iff)
  have t: "takeWhile is_digit (ds @ CHR '']'' # rest) = ds"
    using all by (simp add: takeWhile_append2 bracket_not_digit)
  have d: "dropWhile is_digit (ds @ CHR '']'' # rest) = CHR '']'' # rest"
    using all by (simp add: dropWhile_append2 bracket_not_digit)
  from a show "index_at s = Some (ds, rest)"
    by (simp add: index_at_def t d)
qed

lemma digit_run:
  "re_fullmatch (DigitPlus # Lit CHR '']'' # r) s
     \<longleftrightarrow> (\<exists>ds rest. s = ds @ CHR '']'' # rest \<and> ds \<noteq> [] \<and> list_all is_digit ds
            \<and> re_fullmatch r rest)"
proof (induction s)
  case Nil
  show ?case by simp
next
  case (Cons x xs)
  have l: "re_fullmatch (Lit CHR '']'' # r) xs \<longleftrightarrow> (\<exists>rest. xs = CHR '']'' # rest \<and> re_fullmatch r rest)"
    by (cases xs) auto
  have "re_fullmatch (DigitPlus # Lit CHR '']'' # r) (x # xs)
          \<longleftrightarrow> is_digit x \<and> (re_fullmatch (Lit CHR '']'' # r) xs
                            \<or> re_fullmatch (DigitPlus # Lit CHR '']'' # r) xs)"
    by simp
  also have "\<dots> \<longleftrightarrow> is_digit x \<and> ((\<exists>rest. xs = CHR '']'' # rest \<and> re_fullmatch r rest)
        \<or> (\<exists>ds rest. xs = ds @ CHR '']'' # rest \<and> ds \<noteq> [] \<and> list_all is_digit ds
              \<and> re_fullmatch r rest))"
    unfolding l Cons.IH ..
  also have "\<dots> \<longleftrightarrow> (\<exists>ds rest. x # xs = ds @ CHR '']'' # rest \<and> ds \<noteq> [] \<and> list_all is_digit ds
            \<and> re_fullmatch r rest)" (is "?A \<longleftrightarrow> ?B")
  proof
    assume a: ?A
    then have dx: "is_digit x" by simp
    from a consider rest where "xs = CHR '']'' # rest" "re_fullmatch r rest"
      | ds rest where "xs = ds @ CHR '']'' # rest" "ds \<noteq> []" "list_all is_digit ds"
          "re_fullmatch r rest"
      by blast
    then show ?B
    proof cases
      case 1
      with dx have "x # xs = [x] @ CHR '']'' # rest \<and> [x] \<noteq> [] \<and> list_all is_digit [x]
            \<and> re_fullmatch r rest"
        by simp
      then show ?thesis by blast
    next
      case 2
      with dx have "x # xs = (x # ds) @ CHR '']'' # rest \<and> x # ds \<noteq> []
            \<and> list_all is_digit (x # ds) \<and> re_fullmatch r rest"
        by simp
      then show ?thesis by blast
    qed
  next
    assume ?B
    then obtain ds rest where b: "x # xs = ds @ CHR '']'' # rest" "ds \<noteq> []"
      "list_all is_digit ds" "re_fullmatch r rest"
      by blast
    from b(2) obtain d ds' where ds: "ds = d # ds'" by (cases ds) auto
    with b(1,3) have x: "x = d" "is_digit x" "xs = ds' @ CHR '']'' # rest" "list_all is_digit ds'"
      by simp_all
    show ?A
    proof (cases "ds' = []")
      case True
      with x b(4) show ?thesis by simp
    next
      case False
      with x b(4) show ?thesis by blast
    qed
  qed
  finally show ?case .
qed

lemma wildcard_match:
  "re_fullmatch (Lit CHR ''['' # DigitPlus # Lit CHR '']'' # r) s
     \<longleftrightarrow> (\<exists>ds rest. index_at s = Some (ds, rest) \<and> re_fullmatch r rest)"
proof (cases s)
  case Nil
  then show ?thesis by (simp add: index_at_iff)
next
  case (Cons x xs)
  have "re_fullmatch (Lit CHR ''['' # DigitPlus # Lit CHR '']'' # r) (x # xs)
          \<longleftrightarrow> x = CHR ''['' \<and> re_fullmatch (DigitPlus # Lit CHR '']'' # r) xs"
    by simp
  also have "\<dots> \<longleftrightarrow> (\<exists>ds rest. x # xs = CHR ''['' # ds @ CHR '']'' # rest \<and> ds \<noteq> []
        \<and> list_all is_digit ds \<and> re_fullmatch r rest)"
    unfolding digit_run by auto
  also have "\<dots> \<longleftrightarrow> (\<exists>ds rest. index_at (x # xs) = Some (ds, rest) \<and> re_fullmatch r rest)"
    unfolding index_at_iff by blast
  finally show ?thesis unfolding Cons .
qed

lemma literal_match:
  "re_fullmatch (Lit c # r) s \<longleftrightarrow> (\<exists>xs. s = c # xs \<and> re_fullmatch r xs)"
  by (cases s) auto

lemma literal_digits:
  assumes "list_all is_digit ds"
    and "re_fullmatch (pattern_items cs) (ds @ CHR '']'' # rest)"
  shows "\<exists>cs'. cs = ds @ CHR '']'' # cs'"
  using assms
proof (induction ds arbitrary: cs)
  case Nil
  show ?case
  proof (cases cs)
    case Nil
    with Nil.prems show ?thesis by simp
  next
    case (Cons x xs)
    show ?thesis
    proof (cases "prefix ''[*]'' (x # xs)")
      case True
      then obtain r where "x # xs = CHR ''['' # CHR ''*'' # CHR '']'' # r"
        by (auto simp: prefix_def)
      with Nil.prems Cons show ?thesis by (simp add: literal_match)
    next
      case False
      from Nil.prems Cons pattern_items_literal [OF False]
      have "x = CHR '']''" by (simp add: literal_match)
      with Cons show ?thesis by simp
    qed
  qed
next
  case (Cons d ds)
  from Cons.prems(1) have dd: "is_digit d" and dl: "list_all is_digit ds" by simp_all
  show ?case
  proof (cases cs)
    case Nil
    with Cons.prems show ?thesis by simp
  next
    case c: (Cons x xs)
    show ?thesis
    proof (cases "prefix ''[*]'' (x # xs)")
      case True
      then obtain r where "x # xs = CHR ''['' # CHR ''*'' # CHR '']'' # r"
        by (auto simp: prefix_def)
      with Cons.prems(2) c have "d = CHR ''[''" by (simp add: literal_match)
      with dd show ?thesis by (simp add: bracket_not_digit)
    next
      case False
      from Cons.prems(2) c pattern_items_literal [OF False]
      have x: "x = d" and m: "re_fullmatch (pattern_items xs) (ds @ CHR '']'' # rest)"
        by (simp_all add: literal_match)
      from Cons.IH [OF dl m] obtain cs' where "xs = ds @ CHR '']'' # cs'" by blast
      with x c show ?thesis by simp
    qed
  qed
qed

lemma normal_form_Nil: "replace_indices_with_wildcard s = [] \<longleftrightarrow> s = []"
  by (cases s) (auto split: option.splits)

lemma normal_form_index:
  "index_at s = Some (ds, rest)
     \<Longrightarrow> replace_indices_with_wildcard s = ''[*]'' @ replace_indices_with_wildcard rest"
proof (cases s)
  case Nil
  assume "index_at s = Some (ds, rest)"
  with Nil show ?thesis by (simp add: index_at_def)
next
  case (Cons c cs)
  assume "index_at s = Some (ds, rest)"
  with Cons show ?thesis by simp
qed

lemma normal_form_char:
  "index_at (c # cs) = None
     \<Longrightarrow> replace_indices_with_wildcard (c # cs) = c # replace_indices_with_wildcard cs"
  by simp

lemma normal_form_hd:
  assumes "replace_indices_with_wildcard s = x # t" and "x \<noteq> CHR ''[''"
  shows "\<exists>s'. s = x # s' \<and> replace_indices_with_wildcard s' = t"
proof (cases s)
  case Nil
  with assms show ?thesis by simp
next
  case (Cons c cs)
  show ?thesis
  proof (cases "index_at (c # cs)")
    case None
    with assms Cons show ?thesis by simp
  next
    case (Some p)
    with assms Cons show ?thesis by (cases p) simp
  qed
qed

lemma normal_form_wildcard:
  assumes "replace_indices_with_wildcard s = CHR ''['' # CHR ''*'' # CHR '']'' # r"
    and "index_at s = None"
  shows "prefix ''[*]'' s"
proof -
  from assms(1) obtain c cs where s: "s = c # cs" by (cases s) auto
  with assms have c: "c = CHR ''[''"
    and n: "replace_indices_with_wildcard cs = CHR ''*'' # CHR '']'' # r"
    by simp_all
  from normal_form_hd [OF n] obtain t where t: "cs = CHR ''*'' # t"
    "replace_indices_with_wildcard t = CHR '']'' # r"
    by auto
  from normal_form_hd [OF t(2)] obtain u where "t = CHR '']'' # u" by auto
  with s c t(1) show ?thesis by simp
qed

lemma no_wildcard_suffix: "\<not> has_wildcard (a @ b) \<Longrightarrow> \<not> has_wildcard b"
  unfolding has_wildcard_def contains_iff by (metis append.assoc)

lemma prefix_has_wildcard: "prefix ''[*]'' s \<Longrightarrow> has_wildcard s"
  unfolding has_wildcard_def contains_iff prefix_def by (metis append_Nil)

lemma index_search_tail:
  "index_search (c # cs) = None \<Longrightarrow> index_at (c # cs) = None \<and> index_search cs = None"
  by (auto split: option.splits)

lemma match_normal_form:
  "index_search pattern = None \<Longrightarrow> \<not> has_wildcard path
     \<Longrightarrow> re_fullmatch (pattern_items pattern) path
           \<longleftrightarrow> replace_indices_with_wildcard path = pattern"
proof (induction pattern arbitrary: path rule: length_induct)
  case (1 pattern)
  note IH = "1.IH" [rule_format]
  show ?case
  proof (cases pattern)
    case Nil
    then show ?thesis by (simp add: normal_form_Nil)
  next
    case (Cons c cs)
    from "1.prems"(1) Cons index_search_tail [of c cs]
    have ia: "index_at (c # cs) = None" and isc: "index_search cs = None" by simp_all
    show ?thesis
    proof (cases "prefix ''[*]'' (c # cs)")
      case True
      then obtain r where r: "c # cs = CHR ''['' # CHR ''*'' # CHR '']'' # r"
        by (auto simp: prefix_def)
      then have cs: "cs = CHR ''*'' # CHR '']'' # r" by simp
      from isc cs index_search_tail [of "CHR ''*''" "CHR '']'' # r"]
      have "index_search (CHR '']'' # r) = None" by simp
      with index_search_tail [of "CHR '']''" r] have isr: "index_search r = None" by simp
      have len: "length r < length pattern" using Cons r by simp
      show ?thesis
      proof (cases "index_at path")
        case None
        have "\<not> re_fullmatch (pattern_items pattern) path"
          unfolding Cons r pattern_items_wildcard wildcard_match using None by simp
        moreover have "replace_indices_with_wildcard path \<noteq> pattern"
        proof
          assume "replace_indices_with_wildcard path = pattern"
          then have "replace_indices_with_wildcard path = CHR ''['' # CHR ''*'' # CHR '']'' # r"
            using Cons r by simp
          from normal_form_wildcard [OF this None] have "has_wildcard path"
            by (rule prefix_has_wildcard)
          with "1.prems"(2) show False by simp
        qed
        ultimately show ?thesis by simp
      next
        case (Some p)
        obtain ds rest where p: "p = (ds, rest)" by (cases p)
        with Some have ix: "index_at path = Some (ds, rest)" by simp
        then have "path = (CHR ''['' # ds @ [CHR '']'']) @ rest" by (simp add: index_at_iff)
        with "1.prems"(2) have nw: "\<not> has_wildcard rest" by (metis no_wildcard_suffix)
        have "re_fullmatch (pattern_items pattern) path
                \<longleftrightarrow> re_fullmatch (pattern_items r) rest"
          unfolding Cons r pattern_items_wildcard wildcard_match using ix by simp
        also have "\<dots> \<longleftrightarrow> replace_indices_with_wildcard rest = r"
          by (rule IH [OF len isr nw])
        also have "\<dots> \<longleftrightarrow> replace_indices_with_wildcard path = pattern"
          unfolding normal_form_index [OF ix] Cons r by simp
        finally show ?thesis .
      qed
    next
      case False
      have len: "length cs < length pattern" using Cons by simp
      have m: "re_fullmatch (pattern_items pattern) path
                 \<longleftrightarrow> (\<exists>xs. path = c # xs \<and> re_fullmatch (pattern_items cs) xs)"
        unfolding Cons pattern_items_literal [OF False] literal_match ..
      show ?thesis
      proof (cases path)
        case Nil
        with m Cons show ?thesis by simp
      next
        case px: (Cons x xs)
        from "1.prems"(2) px have nw: "\<not> has_wildcard xs"
          using no_wildcard_suffix [of "[x]" xs] by simp
        show ?thesis
        proof (cases "index_at (x # xs)")
          case None
          have "re_fullmatch (pattern_items pattern) path
                  \<longleftrightarrow> x = c \<and> re_fullmatch (pattern_items cs) xs"
            using m unfolding px by auto
          also have "\<dots> \<longleftrightarrow> x = c \<and> replace_indices_with_wildcard xs = cs"
            unfolding IH [OF len isc nw] ..
          also have "\<dots> \<longleftrightarrow> replace_indices_with_wildcard path = pattern"
            unfolding px Cons normal_form_char [OF None] by simp
          finally show ?thesis .
        next
          case (Some p)
          obtain ds rest where p: "p = (ds, rest)" by (cases p)
          with Some have ix: "index_at (x # xs) = Some (ds, rest)" by simp
          then have x: "x = CHR ''[''" and xs: "xs = ds @ CHR '']'' # rest"
            and ds: "ds \<noteq> []" "list_all is_digit ds"
            by (simp_all add: index_at_iff)
          have "\<not> re_fullmatch (pattern_items pattern) path"
          proof
            assume "re_fullmatch (pattern_items pattern) path"
            with m px have cx: "c = x" and mm: "re_fullmatch (pattern_items cs) xs" by simp_all
            from literal_digits [OF ds(2) mm [unfolded xs]]
            obtain cs' where "cs = ds @ CHR '']'' # cs'" by blast
            with cx x ds have "index_at (c # cs) = Some (ds, cs')" by (simp add: index_at_iff)
            with ia show False by simp
          qed
          moreover have "replace_indices_with_wildcard path \<noteq> pattern"
          proof
            assume "replace_indices_with_wildcard path = pattern"
            with normal_form_index [OF ix] px Cons
            have "c # cs = ''[*]'' @ replace_indices_with_wildcard rest" by simp
            then have "prefix ''[*]'' (c # cs)" by (simp add: prefix_def)
            with False show False by simp
          qed
          ultimately show ?thesis by simp
        qed
      qed
    qed
  qed
qed

lemma split_dot_inject: "split_dot a = split_dot b \<longleftrightarrow> a = b"
  by (metis join_split_dot)

text \<open>
  C4, as stated for every path and pattern. A concrete index in a pattern is matched
  literally: the pattern \<open>root.a[0]\<close>, which \<open>JSONParser\<close> computes for a table with the
  aliases \<open>root.a[0].b\<close> and \<open>root.a[0].c\<close>, matches the path \<open>root.a[0]\<close>, whose normal
  form \<open>root.a[*]\<close> differs from the pattern. And \<open>[*]\<close> in a path (a key of the document
  can hold it) is unchanged by the normal form, while a wildcard of the pattern matches
  digits only.
\<close>

theorem concrete_index_in_pattern_matches_itself:
  "path_matches ''root.a[0]'' ''root.a[0]''
   \<and> split_dot (replace_indices_with_wildcard ''root.a[0]'') = [''root'', ''a[*]'']
   \<and> split_dot ''root.a[0]'' = [''root'', ''a[0]'']
   \<and> model_specs_find_deepest_common_path_pattern [''root.a[0].b'', ''root.a[0].c'']
       = Inr ''root.a[0]''
   \<and> \<not> path_matches ''root.x[*]'' ''root.x[*]''
   \<and> split_dot (replace_indices_with_wildcard ''root.x[*]'') = split_dot ''root.x[*]''"
  by code_simp

text \<open>
  C4, for a path without \<open>[*]\<close> and a pattern without a concrete index \<open>[i]\<close>: the
  three \<open>path_matches\<close> return true if and only if the path, after replacing every
  concrete index \<open>[i]\<close> with \<open>[*]\<close>, is segment for segment the pattern. So every other
  character, key names included, must match literally, and a wildcard accepts every
  non-empty run of digits.
\<close>

theorem path_matches_iff_normal_form:
  assumes "\<not> has_wildcard path" and "index_search pattern = None"
  shows "path_matches path pattern
           \<longleftrightarrow> split_dot (replace_indices_with_wildcard path) = split_dot pattern"
  unfolding path_matches_def compile_pattern split_dot_inject
  using assms(2,1) by (rule match_normal_form)

theorem path_matches_iff_normal_form_witness:
  "\<not> has_wildcard ''root.items[12].tx[0]'' \<and> index_search ''root.items[*].tx[*]'' = None
   \<and> path_matches ''root.items[12].tx[0]'' ''root.items[*].tx[*]''
   \<and> \<not> path_matches ''root.items[12].ty[0]'' ''root.items[*].tx[*]''"
proof -
  have h: "\<not> has_wildcard ''root.items[12].tx[0]''" "\<not> has_wildcard ''root.items[12].ty[0]''"
    "index_search ''root.items[*].tx[*]'' = None"
    by code_simp+
  have n: "split_dot (replace_indices_with_wildcard ''root.items[12].tx[0]'')
             = split_dot ''root.items[*].tx[*]''"
    "split_dot (replace_indices_with_wildcard ''root.items[12].ty[0]'')
             \<noteq> split_dot ''root.items[*].tx[*]''"
    by code_simp+
  from path_matches_iff_normal_form [OF h(1) h(3)] path_matches_iff_normal_form [OF h(2) h(3)] n h
  show ?thesis by simp
qed

section \<open>Wildcard-free aliases\<close>

text \<open>
  C10, as stated for every field. In \<open>done.py\<close> a field whose alias is its own name is
  read from the object at the extraction point, with \<open>obj.get(field_name)\<close>, not from the
  index: the two items of \<open>two_items_doc\<close> give the rows \<open>A\<close> and \<open>B\<close>, although the index
  of the walk has no path \<open>id\<close>, and an index that had one would not be consulted.
\<close>

theorem local_field_is_read_from_the_node:
  "\<not> has_wildcard ''id''
   \<and> fst (extract_model_data two_items_doc [local_spec]) ''root.items[*]''
     = Some [[(''id'', JStr ''A'')], [(''id'', JStr ''B'')]]
   \<and> snd (extract_model_data two_items_doc [local_spec]) = []
   \<and> fst (walk (\<lambda>obj path idx u. u) two_items_doc ''root'' (Map.empty, ())) ''id'' = None
   \<and> build_model_data (JDict [(''id'', JStr ''A'')]) ''root.items[0]'' local_spec
        [''id'' \<mapsto> JStr ''other''] = [(''id'', JStr ''A'')]"
  by code_simp



end
